theory Spec2Isabelle
  imports Main "HOL-Library.Word" "HOL-Library.AList"
begin

section \<open>Data model of ec_protect.c\<close>

text \<open>
  Block buffers are byte lists, times are the \<^verbatim>\<open>uint64_t\<close> milliseconds of
  \<^verbatim>\<open>ec_protect_get_time\<close>, and an MD5 digest (\<^verbatim>\<open>u_char[MD5_DIGEST_LENGTH]\<close>, 16 bytes)
  is a 128-bit word, so that \<^verbatim>\<open>memcmp(a, b, MD5_DIGEST_LENGTH) == 0\<close> is equality and
  \<^verbatim>\<open>zero_md5\<close> (a zero-initialised static array) is the word 0. Block numbers
  (\<^verbatim>\<open>s3b_block_t\<close>, declared in a header outside this file) are only compared and used as
  hash keys, never computed with: they are natural numbers here. Records are allocated
  objects: an address is a natural number.
\<close>

type_synonym byte = "8 word"
type_synonym buffer = "byte list"
type_synonym uint64_t = "64 word"
type_synonym md5_t = "128 word"
type_synonym s3b_block_t = nat
type_synonym addr = nat

definition zero_md5 :: md5_t where
  "zero_md5 = 0"

definition EINVAL :: int where
  "EINVAL = 22"

definition ENOMEM :: int where
  "ENOMEM = 12"

text \<open>\<^verbatim>\<open>memset(dest, 0, n)\<close>, \<^verbatim>\<open>memcpy(dest, src, n)\<close> and \<^verbatim>\<open>memcmp(a, b, n) == 0\<close> on buffers.\<close>

definition memset_zero :: "buffer \<Rightarrow> nat \<Rightarrow> buffer" where
  "memset_zero dest n = replicate n 0 @ drop n dest"

definition memcpy :: "buffer \<Rightarrow> buffer \<Rightarrow> nat \<Rightarrow> buffer" where
  "memcpy dest src n = take n src @ drop n dest"

definition memcmp_eq :: "buffer \<Rightarrow> buffer \<Rightarrow> nat \<Rightarrow> bool" where
  "memcmp_eq a b n = (take n a = take n b)"

text \<open>
  \<^verbatim>\<open>struct ec_protect_conf\<close> and \<^verbatim>\<open>struct ec_protect_stats\<close> are declared in ec_protect.h,
  which is not among the sources; their fields are the ones ec_protect.c reads and
  writes. The two delays enter 64-bit sums with timestamps, so they are carried at that
  width; the two event counters are unsigned machine counters that wrap.
\<close>

record ec_protect_conf =
  block_size :: nat
  min_write_delay :: uint64_t
  cache_time :: uint64_t
  cache_size :: nat

record ec_protect_stats =
  cache_data_hits :: "32 word"
  cache_full_delay :: uint64_t
  repeated_write_delay :: uint64_t
  out_of_memory_errors :: "32 word"

text \<open>
  \<^verbatim>\<open>struct block_info\<close>. The union \<^verbatim>\<open>u\<close> is a tagged value: \<open>U_data\<close> is the
  caller's source buffer (\<open>None\<close> for a null pointer) while WRITING, \<open>U_md5\<close> the digest
  while WRITTEN. The list link is the position in \<open>tailq\<close> below.
\<close>

datatype u_payload = U_data "buffer option" | U_md5 md5_t

record block_info =
  block_num :: s3b_block_t
  timestamp :: uint64_t
  payload :: u_payload

text \<open>
  \<^verbatim>\<open>struct ec_protect_private\<close>. The hash table maps a block number to the address of its
  record (an association list, \<^verbatim>\<open>g_hash_table_size\<close> its length); \<open>tailq\<close> is the
  TAILQ of record addresses, head first. \<open>mem\<close> holds the records, \<open>live\<close> says which
  addresses are allocated and not yet freed, and \<open>next_addr\<close> is what \<^verbatim>\<open>calloc\<close> hands out
  next (an address is never handed out twice). \<open>space_cond\<close> is the history of signals sent
  on that condition variable and \<open>logged\<close> the messages passed to \<^verbatim>\<open>config->log\<close>.
\<close>

datatype cond_signal = Signal | Broadcast

record ec_protect_private =
  stats :: ec_protect_stats
  hashtable :: "(s3b_block_t \<times> addr) list"
  tailq :: "addr list"
  zero_block :: "buffer option"
  mem :: "addr \<Rightarrow> block_info"
  live :: "addr \<Rightarrow> bool"
  next_addr :: addr
  space_cond :: "cond_signal list"
  logged :: "string list"

definition ec_protect_create :: ec_protect_private where
  "ec_protect_create =
     \<lparr>stats = \<lparr>cache_data_hits = 0, cache_full_delay = 0, repeated_write_delay = 0,
                out_of_memory_errors = 0\<rparr>,
      hashtable = [], tailq = [], zero_block = None,
      mem = (\<lambda>_. \<lparr>block_num = 0, timestamp = 0, payload = U_data None\<rparr>),
      live = (\<lambda>_. False), next_addr = 0, space_cond = [], logged = []\<rparr>"

section \<open>Data structure manipulation\<close>

definition ec_protect_hash_get :: "ec_protect_private \<Rightarrow> s3b_block_t \<Rightarrow> addr option" where
  "ec_protect_hash_get priv b = map_of (hashtable priv) b"

definition ec_protect_hash_put :: "ec_protect_private \<Rightarrow> addr \<Rightarrow> ec_protect_private" where
  "ec_protect_hash_put priv binfo =
     priv\<lparr>hashtable := AList.update (block_num (mem priv binfo)) binfo (hashtable priv)\<rparr>"

definition ec_protect_hash_remove :: "ec_protect_private \<Rightarrow> s3b_block_t \<Rightarrow> ec_protect_private" where
  "ec_protect_hash_remove priv b = priv\<lparr>hashtable := AList.delete b (hashtable priv)\<rparr>"

definition tailq_remove :: "ec_protect_private \<Rightarrow> addr \<Rightarrow> ec_protect_private" where
  "tailq_remove priv binfo = priv\<lparr>tailq := remove1 binfo (tailq priv)\<rparr>"

definition tailq_insert_tail :: "ec_protect_private \<Rightarrow> addr \<Rightarrow> ec_protect_private" where
  "tailq_insert_tail priv binfo = priv\<lparr>tailq := tailq priv @ [binfo]\<rparr>"

definition calloc_binfo :: "ec_protect_private \<Rightarrow> addr \<times> ec_protect_private" where
  "calloc_binfo priv =
     (next_addr priv,
      priv\<lparr>mem := (mem priv)(next_addr priv :=
                \<lparr>block_num = 0, timestamp = 0, payload = U_data None\<rparr>),
           live := (live priv)(next_addr priv := True),
           next_addr := Suc (next_addr priv)\<rparr>)"

definition free_binfo :: "ec_protect_private \<Rightarrow> addr \<Rightarrow> ec_protect_private" where
  "free_binfo priv binfo = priv\<lparr>live := (live priv)(binfo := False)\<rparr>"

definition cond_signal :: "ec_protect_private \<Rightarrow> ec_protect_private" where
  "cond_signal priv = priv\<lparr>space_cond := space_cond priv @ [Signal]\<rparr>"

definition cond_broadcast :: "ec_protect_private \<Rightarrow> ec_protect_private" where
  "cond_broadcast priv = priv\<lparr>space_cond := space_cond priv @ [Broadcast]\<rparr>"

section \<open>The expiry scrubber\<close>

text \<open>
  The \<^verbatim>\<open>while\<close> loop of \<^verbatim>\<open>ec_protect_scrub_expired_writtens\<close>: as long as the list has a
  head whose \<^verbatim>\<open>timestamp + cache_time\<close> (a 64-bit sum) is at most the current time, unlink
  it, remove its block number from the hash table, free it and count it.
\<close>

function scrub_loop ::
  "ec_protect_conf \<Rightarrow> uint64_t \<Rightarrow> ec_protect_private \<Rightarrow> nat \<Rightarrow> ec_protect_private \<times> nat" where
  "scrub_loop config current_time priv num_removed =
     (case tailq priv of
        [] \<Rightarrow> (priv, num_removed)
      | binfo # _ \<Rightarrow>
          if timestamp (mem priv binfo) + cache_time config \<le> current_time
          then scrub_loop config current_time
                 (free_binfo
                    (ec_protect_hash_remove (tailq_remove priv binfo) (block_num (mem priv binfo)))
                    binfo)
                 (Suc num_removed)
          else (priv, num_removed))"
  by pat_completeness auto
termination
  by (relation "measure (\<lambda>(config, current_time, priv, num_removed). length (tailq priv))")
     (auto simp: free_binfo_def ec_protect_hash_remove_def tailq_remove_def)

declare scrub_loop.simps [simp del]

definition ec_protect_scrub_expired_writtens ::
  "ec_protect_conf \<Rightarrow> ec_protect_private \<Rightarrow> uint64_t \<Rightarrow> ec_protect_private" where
  "ec_protect_scrub_expired_writtens config priv current_time =
     (case scrub_loop config current_time priv 0 of
        (priv', num_removed) \<Rightarrow>
          (case num_removed of
             0 \<Rightarrow> priv'
           | Suc 0 \<Rightarrow> cond_signal priv'
           | Suc (Suc _) \<Rightarrow> cond_broadcast priv'))"

section \<open>Timed wait\<close>

text \<open>
  \<^verbatim>\<open>ec_protect_sleep_until\<close>. \<open>has_cond\<close> says whether \<^verbatim>\<open>cond\<close> is non-null. The clock
  and the wait are the environment's: \<open>time_before\<close> is what \<^verbatim>\<open>ec_protect_get_time\<close> returns
  on entry, \<open>wakeup\<close> is how the wait ended, and \<open>time_wakeup\<close> is the clock when the
  wait has ended and the mutex is held again, which the function reads only when the wait
  did not time out. A failed \<^verbatim>\<open>assert\<close> (or, compiled with NDEBUG, an untimed wait on the
  condition that nobody signals) does not return: \<open>None\<close>.
\<close>

datatype wakeup = ETIMEDOUT | Woken

definition ec_protect_sleep_until ::
  "bool \<Rightarrow> uint64_t \<Rightarrow> uint64_t \<Rightarrow> wakeup \<Rightarrow> uint64_t \<Rightarrow> uint64_t option" where
  "ec_protect_sleep_until has_cond wake_time_millis time_before wakeup time_wakeup =
     (if \<not> (has_cond \<or> wake_time_millis \<noteq> 0) then None
      else if wake_time_millis \<noteq> 0
      then (if wakeup = ETIMEDOUT then Some (wake_time_millis - time_before)
            else Some (time_wakeup - time_before))
      else Some (time_wakeup - time_before))"

section \<open>The write path\<close>

text \<open>
  \<^verbatim>\<open>ec_protect_write_block\<close> is cut where it releases the mutex. \<open>write_block_enter\<close> is
  the code before \<^verbatim>\<open>again:\<close>: the sanity check, the allocation of the zero block
  (\<open>calloc_ok\<close> says whether \<^verbatim>\<open>calloc\<close> succeeds), the special case for all-zero blocks and
  the MD5 of the block. The digest function behind \<^verbatim>\<open>MD5_Init/MD5_Update/MD5_Final\<close> is the
  parameter \<open>MD5\<close>.
\<close>

definition count_oom :: "ec_protect_private \<Rightarrow> ec_protect_private" where
  "count_oom priv =
     priv\<lparr>stats := (stats priv)\<lparr>out_of_memory_errors := out_of_memory_errors (stats priv) + 1\<rparr>\<rparr>"

definition count_hit :: "ec_protect_private \<Rightarrow> ec_protect_private" where
  "count_hit priv =
     priv\<lparr>stats := (stats priv)\<lparr>cache_data_hits := cache_data_hits (stats priv) + 1\<rparr>\<rparr>"

definition write_block_source ::
  "ec_protect_conf \<Rightarrow> (buffer \<Rightarrow> md5_t) \<Rightarrow> buffer \<Rightarrow> buffer option \<Rightarrow> md5_t option
     \<Rightarrow> buffer option \<times> md5_t" where
  "write_block_source config MD5 zero_blk src md5 =
     (case src of
        None \<Rightarrow> (None, zero_md5)
      | Some s \<Rightarrow>
          if memcmp_eq s zero_blk (block_size config) then (None, zero_md5)
          else (case md5 of
                  None \<Rightarrow> (Some s, MD5 (take (block_size config) s))
                | Some m \<Rightarrow> (Some s, m)))"

definition write_block_enter ::
  "ec_protect_conf \<Rightarrow> (buffer \<Rightarrow> md5_t) \<Rightarrow> bool \<Rightarrow> ec_protect_private \<Rightarrow> buffer option
     \<Rightarrow> md5_t option \<Rightarrow> (int + buffer option \<times> md5_t) \<times> ec_protect_private" where
  "write_block_enter config MD5 calloc_ok priv src md5 =
     (if block_size config = 0 then (Inl EINVAL, priv)
      else (case zero_block priv of
              None \<Rightarrow>
                if calloc_ok
                then (Inr (write_block_source config MD5 (replicate (block_size config) 0) src md5),
                      priv\<lparr>zero_block := Some (replicate (block_size config) 0)\<rparr>)
                else (Inl ENOMEM, count_oom priv)
            | Some zero_blk \<Rightarrow> (Inr (write_block_source config MD5 zero_blk src md5), priv)))"

text \<open>
  \<open>write_block_again\<close> is one pass from \<^verbatim>\<open>again:\<close> with the mutex held, for the clock
  reading \<open>current_time\<close>: scrub, look the block up, and either call
  \<^verbatim>\<open>ec_protect_sleep_until\<close> (\<open>Sleep\<close>, with the statistic the delay is added to and the
  wake time; the condition is \<^verbatim>\<open>space_cond\<close> at \<open>Cache_full\<close> and null at
  \<open>Repeated_write\<close>), reach \<^verbatim>\<open>writeit:\<close> with the record (\<open>Writeit\<close>), or return an error.
\<close>

datatype sleep_site = Cache_full | Repeated_write

datatype again_result = Sleep sleep_site uint64_t | Writeit addr | Return int

definition write_block_again ::
  "ec_protect_conf \<Rightarrow> ec_protect_private \<Rightarrow> s3b_block_t \<Rightarrow> buffer option \<Rightarrow> uint64_t \<Rightarrow> bool
     \<Rightarrow> again_result \<times> ec_protect_private" where
  "write_block_again config priv0 blk src current_time calloc_ok =
     (let priv = ec_protect_scrub_expired_writtens config priv0 current_time in
      case ec_protect_hash_get priv blk of
        None \<Rightarrow>
          if cache_size config \<le> length (hashtable priv)
          then (case tailq priv of
                  first # _ \<Rightarrow>
                    (Sleep Cache_full (timestamp (mem priv first) + cache_time config), priv)
                | [] \<Rightarrow> (Sleep Cache_full 0, priv))
          else if \<not> calloc_ok then (Return ENOMEM, count_oom priv)
          else (case calloc_binfo priv of
                  (binfo, priv1) \<Rightarrow>
                    (Writeit binfo,
                     ec_protect_hash_put
                       (priv1\<lparr>mem := (mem priv1)(binfo :=
                          (mem priv1 binfo)\<lparr>block_num := blk, payload := U_data src\<rparr>)\<rparr>)
                       binfo))
      | Some binfo \<Rightarrow>
          if timestamp (mem priv binfo) = 0
          then (Sleep Repeated_write (current_time + min_write_delay config), priv)
          else if current_time < timestamp (mem priv binfo) + min_write_delay config
          then (Sleep Repeated_write (timestamp (mem priv binfo) + min_write_delay config), priv)
          else (Writeit binfo,
                tailq_remove
                  (priv\<lparr>mem := (mem priv)(binfo :=
                     (mem priv binfo)\<lparr>timestamp := 0, payload := U_data src\<rparr>)\<rparr>)
                  binfo))"

text \<open>The statistic a sleep's return value is added to, before \<^verbatim>\<open>goto again\<close>.\<close>

definition add_delay :: "sleep_site \<Rightarrow> uint64_t \<Rightarrow> ec_protect_private \<Rightarrow> ec_protect_private" where
  "add_delay site delay priv =
     (case site of
        Cache_full \<Rightarrow>
          priv\<lparr>stats := (stats priv)\<lparr>cache_full_delay := cache_full_delay (stats priv) + delay\<rparr>\<rparr>
      | Repeated_write \<Rightarrow>
          priv\<lparr>stats := (stats priv)\<lparr>repeated_write_delay :=
                 repeated_write_delay (stats priv) + delay\<rparr>\<rparr>)"

text \<open>
  \<open>write_block_finish\<close> is the code after the inner write has returned \<open>r\<close> and the
  mutex is held again; \<open>now\<close> is the clock reading that becomes the timestamp.
\<close>

definition write_block_finish ::
  "ec_protect_private \<Rightarrow> s3b_block_t \<Rightarrow> addr \<Rightarrow> md5_t \<Rightarrow> int \<Rightarrow> uint64_t
     \<Rightarrow> int \<times> ec_protect_private" where
  "write_block_finish priv blk binfo md5 r now =
     (if r \<noteq> 0
      then (r, free_binfo (cond_signal (ec_protect_hash_remove priv blk)) binfo)
      else (0, tailq_insert_tail
                 (priv\<lparr>mem := (mem priv)(binfo :=
                    (mem priv binfo)\<lparr>timestamp := now, payload := U_md5 md5\<rparr>)\<rparr>)
                 binfo))"

section \<open>The read path\<close>

text \<open>
  The locked part of \<^verbatim>\<open>ec_protect_read_block\<close>: it returns at once with the destination
  filled (\<open>Read_return\<close>), or releases the mutex and calls the inner read with an expected
  digest (\<open>Read_inner\<close>). Reading the union through the member that was not stored has no
  meaning the source fixes: \<open>Read_undefined\<close>.
\<close>

datatype read_result = Read_return int buffer | Read_inner "md5_t option" | Read_undefined

definition impossible_md5 :: string where
  "impossible_md5 = ''ec_protect_read_block(): impossible expected MD5?''"

definition log_err :: "ec_protect_private \<Rightarrow> string \<Rightarrow> ec_protect_private" where
  "log_err priv msg = priv\<lparr>logged := logged priv @ [msg]\<rparr>"

definition read_block_locked ::
  "ec_protect_conf \<Rightarrow> ec_protect_private \<Rightarrow> s3b_block_t \<Rightarrow> buffer \<Rightarrow> md5_t option \<Rightarrow> uint64_t
     \<Rightarrow> read_result \<times> ec_protect_private" where
  "read_block_locked config priv0 blk dest expect_md5 now =
     (let priv = ec_protect_scrub_expired_writtens config priv0 now in
      case ec_protect_hash_get priv blk of
        None \<Rightarrow> (Read_inner expect_md5, priv)
      | Some binfo \<Rightarrow>
          if timestamp (mem priv binfo) = 0
          then (case payload (mem priv binfo) of
                  U_data None \<Rightarrow>
                    (Read_return 0 (memset_zero dest (block_size config)), count_hit priv)
                | U_data (Some data) \<Rightarrow>
                    (Read_return 0 (memcpy dest data (block_size config)), count_hit priv)
                | U_md5 _ \<Rightarrow> (Read_undefined, priv))
          else (case payload (mem priv binfo) of
                  U_md5 md5 \<Rightarrow>
                    if md5 = zero_md5
                    then (Read_return 0 (memset_zero dest (block_size config)), count_hit priv)
                    else (Read_inner (Some md5),
                          if expect_md5 \<noteq> None \<and> expect_md5 \<noteq> Some md5
                          then log_err priv impossible_md5 else priv)
                | U_data _ \<Rightarrow> (Read_undefined, priv)))"

section \<open>One caller at a time\<close>

text \<open>
  \<^verbatim>\<open>struct s3backer_store *inner\<close>: the two function pointers the shim calls, over a
  backend state of any type.
\<close>

record 'be s3backer_store =
  read_block :: "'be \<Rightarrow> s3b_block_t \<Rightarrow> buffer \<Rightarrow> md5_t option \<Rightarrow> (int \<times> buffer) \<times> 'be"
  write_block :: "'be \<Rightarrow> s3b_block_t \<Rightarrow> buffer option \<Rightarrow> md5_t \<Rightarrow> int \<times> 'be"

text \<open>
  What the environment decides during one pass from \<^verbatim>\<open>again:\<close>: the clock reading, whether
  \<^verbatim>\<open>calloc\<close> succeeds, and for a sleep the clock on entry, how the wait ends and the clock
  at wakeup.
\<close>

record pass_env =
  pe_current_time :: uint64_t
  pe_calloc_ok :: bool
  pe_time_before :: uint64_t
  pe_wakeup :: wakeup
  pe_time_wakeup :: uint64_t

text \<open>
  The \<^verbatim>\<open>goto again\<close> loop, one list element per pass. The loop has no bound in the source:
  \<open>None\<close> is a caller still inside it when the list is used up, or one that never
  returns from \<^verbatim>\<open>ec_protect_sleep_until\<close>.
\<close>

fun write_block_loop ::
  "ec_protect_conf \<Rightarrow> ec_protect_private \<Rightarrow> s3b_block_t \<Rightarrow> buffer option \<Rightarrow> pass_env list
     \<Rightarrow> ((int + addr) \<times> ec_protect_private) option" where
  "write_block_loop config priv blk src [] = None"
| "write_block_loop config priv blk src (e # es) =
     (case write_block_again config priv blk src (pe_current_time e) (pe_calloc_ok e) of
        (Sleep site wake_time, priv1) \<Rightarrow>
          (case ec_protect_sleep_until (site = Cache_full) wake_time
                  (pe_time_before e) (pe_wakeup e) (pe_time_wakeup e) of
             None \<Rightarrow> None
           | Some delay \<Rightarrow> write_block_loop config (add_delay site delay priv1) blk src es)
      | (Writeit binfo, priv1) \<Rightarrow> Some (Inr binfo, priv1)
      | (Return r, priv1) \<Rightarrow> Some (Inl r, priv1))"

definition ec_protect_write_block ::
  "ec_protect_conf \<Rightarrow> (buffer \<Rightarrow> md5_t) \<Rightarrow> 'be s3backer_store \<Rightarrow> bool \<Rightarrow> pass_env list
     \<Rightarrow> uint64_t \<Rightarrow> ec_protect_private \<times> 'be \<Rightarrow> s3b_block_t \<Rightarrow> buffer option \<Rightarrow> md5_t option
     \<Rightarrow> (int \<times> ec_protect_private \<times> 'be) option" where
  "ec_protect_write_block config MD5 inner calloc_ok passes time_done s3b blk src0 md5_0 =
     (case s3b of
        (priv0, be) \<Rightarrow>
          (case write_block_enter config MD5 calloc_ok priv0 src0 md5_0 of
             (Inl r, priv) \<Rightarrow> Some (r, priv, be)
           | (Inr (src, md5), priv) \<Rightarrow>
               (case write_block_loop config priv blk src passes of
                  None \<Rightarrow> None
                | Some (Inl r, priv1) \<Rightarrow> Some (r, priv1, be)
                | Some (Inr binfo, priv1) \<Rightarrow>
                    (case write_block inner be blk src md5 of
                       (r, be') \<Rightarrow>
                         (case write_block_finish priv1 blk binfo md5 r time_done of
                            (status, priv2) \<Rightarrow> Some (status, priv2, be'))))))"

definition ec_protect_read_block ::
  "ec_protect_conf \<Rightarrow> 'be s3backer_store \<Rightarrow> uint64_t \<Rightarrow> ec_protect_private \<times> 'be \<Rightarrow> s3b_block_t
     \<Rightarrow> buffer \<Rightarrow> md5_t option \<Rightarrow> ((int \<times> buffer) \<times> ec_protect_private \<times> 'be) option" where
  "ec_protect_read_block config inner now s3b blk dest expect_md5 =
     (case s3b of
        (priv0, be) \<Rightarrow>
          (case read_block_locked config priv0 blk dest expect_md5 now of
             (Read_return r dest', priv) \<Rightarrow> Some ((r, dest'), priv, be)
           | (Read_inner expect, priv) \<Rightarrow>
               (case read_block inner be blk dest expect of
                  (res, be') \<Rightarrow> Some (res, priv, be'))
           | (Read_undefined, priv) \<Rightarrow> None))"

text \<open>
  A write followed by a read by the same caller, with nothing in between: the write's
  status, what the read returns, and the backend's state after both.
\<close>

definition write_then_read ::
  "ec_protect_conf \<Rightarrow> (buffer \<Rightarrow> md5_t) \<Rightarrow> 'be s3backer_store \<Rightarrow> bool \<Rightarrow> pass_env list
     \<Rightarrow> uint64_t \<Rightarrow> uint64_t \<Rightarrow> ec_protect_private \<times> 'be \<Rightarrow> s3b_block_t \<Rightarrow> buffer option
     \<Rightarrow> md5_t option \<Rightarrow> buffer \<Rightarrow> md5_t option \<Rightarrow> (int \<times> (int \<times> buffer) \<times> 'be) option" where
  "write_then_read config MD5 inner calloc_ok passes time_done now s3b blk src md5 dest expect_md5 =
     (case ec_protect_write_block config MD5 inner calloc_ok passes time_done s3b blk src md5 of
        None \<Rightarrow> None
      | Some (status, priv, be) \<Rightarrow>
          (case ec_protect_read_block config inner now (priv, be) blk dest expect_md5 of
             None \<Rightarrow> None
           | Some (res, priv', be') \<Rightarrow> Some (status, res, be')))"

text \<open>
  Modelled from the spec: the inner store of the round-trip law, "a backend that
  faithfully stores what it is given", with the two duties section 6 of the spec gives
  the backend: it "must treat a null \<^verbatim>\<open>src\<close> as an all-zeros payload", and it "is expected
  to verify an incoming expected fingerprint against retrieved data and return a
  distinguishable mismatch error". The inner store is behind the function pointers of
  \<^verbatim>\<open>priv->inner\<close> and not part of ec_protect.c. Its state maps a block number to the
  block's content. A write stores the first \<^verbatim>\<open>block_size\<close> bytes of the source and returns
  0. A read retrieves the content; when an expected digest is given and is not the MD5 of
  the content, it returns the mismatch error (\<open>EIO\<close> stands for it) and leaves the
  destination alone; otherwise it copies the content to the destination and returns 0.
\<close>

definition EIO :: int where
  "EIO = 5"

definition faithful_store ::
  "ec_protect_conf \<Rightarrow> (buffer \<Rightarrow> md5_t) \<Rightarrow> (s3b_block_t \<Rightarrow> buffer) s3backer_store" where
  "faithful_store config MD5 =
     \<lparr>read_block = (\<lambda>be blk dest expect.
         (case expect of
            None \<Rightarrow> ((0, memcpy dest (be blk) (block_size config)), be)
          | Some m \<Rightarrow>
              if MD5 (be blk) = m then ((0, memcpy dest (be blk) (block_size config)), be)
              else ((EIO, dest), be))),
      write_block = (\<lambda>be blk src md5.
         (0, be(blk := (case src of
                          None \<Rightarrow> replicate (block_size config) 0
                        | Some s \<Rightarrow> take (block_size config) s))))\<rparr>"

text \<open>
  An inner store for telling whether the shim calls it: it accepts every write, and its
  state counts the reads it is asked for.
\<close>

definition counting_store :: "nat s3backer_store" where
  "counting_store =
     \<lparr>read_block = (\<lambda>n blk dest expect. ((0, dest), Suc n)),
      write_block = (\<lambda>n blk src md5. (0, n))\<rparr>"

text \<open>An inner store that refuses every write with \<^verbatim>\<open>EIO\<close>; its state counts the reads too.\<close>

definition failing_store :: "nat s3backer_store" where
  "failing_store =
     \<lparr>read_block = (\<lambda>n blk dest expect. ((0, dest), Suc n)),
      write_block = (\<lambda>n blk src md5. (EIO, n))\<rparr>"

text \<open>
  The zero block is only ever the result of \<^verbatim>\<open>calloc(1, config->block_size)\<close> and is never
  written to: when allocated, it is \<^verbatim>\<open>block_size\<close> zero bytes.
\<close>

definition zero_block_ok :: "ec_protect_conf \<Rightarrow> ec_protect_private \<Rightarrow> bool" where
  "zero_block_ok config priv =
     (zero_block priv = None \<or> zero_block priv = Some (replicate (block_size config) 0))"

text \<open>
  The configuration of the spec's end-to-end scenarios (block size 4, room for two
  records, 200 ms of caching, 100 ms between writes), and a state for them: block 7
  WRITTEN at time 10 with a given digest.
\<close>

definition scenario_conf :: ec_protect_conf where
  "scenario_conf = \<lparr>block_size = 4, min_write_delay = 100, cache_time = 200, cache_size = 2\<rparr>"

definition block7_written :: "md5_t \<Rightarrow> ec_protect_private" where
  "block7_written md5 =
     ec_protect_create
       \<lparr>hashtable := [(7, 0)], tailq := [0], zero_block := Some [0, 0, 0, 0],
        mem := (mem ec_protect_create)(0 := \<lparr>block_num = 7, timestamp = 10, payload = U_md5 md5\<rparr>),
        live := (live ec_protect_create)(0 := True), next_addr := 1\<rparr>"

text \<open>
  Block 5 WRITING, as a first write of [1, 2, 3, 4] to block 5 leaves the state when it
  reaches \<^verbatim>\<open>writeit:\<close>: its record is in the hash table, with the source buffer and no
  timestamp.
\<close>

definition block5_writing :: ec_protect_private where
  "block5_writing =
     ec_protect_create
       \<lparr>hashtable := [(5, 0)], zero_block := Some [0, 0, 0, 0],
        mem := (mem ec_protect_create)(0 :=
          \<lparr>block_num = 5, timestamp = 0, payload = U_data (Some [1, 2, 3, 4])\<rparr>),
        live := (live ec_protect_create)(0 := True), next_addr := 1\<rparr>"

text \<open>
  Two stand-ins for the MD5 function where a concrete one is needed: one that gives every
  block the digest 9, and one that tells contents apart (one more than the sum of the
  bytes, never the zero digest on short blocks). The faithful store before any write
  holds zeros for every block of the scenarios.
\<close>

definition stub_md5 :: "buffer \<Rightarrow> md5_t" where
  "stub_md5 b = 9"

definition sum_md5 :: "buffer \<Rightarrow> md5_t" where
  "sum_md5 b = foldr (\<lambda>x acc. ucast x + acc) b 1"

definition empty_store :: "s3b_block_t \<Rightarrow> buffer" where
  "empty_store blk = [0, 0, 0, 0]"

text \<open>Blocks 7 and 8 WRITTEN, at times 10 and 20, both with digest 9.\<close>

definition blocks_7_8_written :: ec_protect_private where
  "blocks_7_8_written =
     ec_protect_create
       \<lparr>hashtable := [(7, 0), (8, 1)], tailq := [0, 1], zero_block := Some [0, 0, 0, 0],
        mem := (mem ec_protect_create)
          (0 := \<lparr>block_num = 7, timestamp = 10, payload = U_md5 9\<rparr>,
           1 := \<lparr>block_num = 8, timestamp = 20, payload = U_md5 9\<rparr>),
        live := (live ec_protect_create)(0 := True, 1 := True), next_addr := 2\<rparr>"

text \<open>One pass of the write loop at a given time, with memory available and no sleep.\<close>

definition pass_at :: "uint64_t \<Rightarrow> pass_env" where
  "pass_at t = \<lparr>pe_current_time = t, pe_calloc_ok = True, pe_time_before = t,
               pe_wakeup = ETIMEDOUT, pe_time_wakeup = t\<rparr>"

section \<open>Many callers\<close>

text \<open>
  The mutex makes each stretch of code between taking it and releasing it (or waiting on
  a condition variable, which releases it) one atomic step on the shared state. A thread
  is at one of the points where the mutex is not held: outside any call, about to take
  the mutex at \<^verbatim>\<open>again:\<close>, inside \<^verbatim>\<open>ec_protect_sleep_until\<close> (with the statistic, the wake
  time and the clock on entry), or inside the inner store's write or read.
\<close>

datatype thread =
    Idle
  | Returned int "buffer option"
  | At_again s3b_block_t "buffer option" md5_t
  | Sleeping sleep_site s3b_block_t "buffer option" md5_t uint64_t uint64_t
  | In_inner_write s3b_block_t "buffer option" md5_t addr
  | In_inner_read s3b_block_t buffer "md5_t option"

text \<open>
  The history is bookkeeping for stating the order of and the delay between writes: a
  backend write of a block is started at the clock reading of the pass that reaches
  \<^verbatim>\<open>writeit:\<close> (the call follows it), a successful one is completed at the reading that
  becomes the record's timestamp (the call's return precedes it), and one that returned
  an error has failed (the clock is not read then). \<open>clock\<close> is the latest clock value.
\<close>

datatype backend_event =
    Write_started s3b_block_t uint64_t
  | Write_completed s3b_block_t uint64_t
  | Write_failed s3b_block_t

record system =
  s3b_data :: ec_protect_private
  threads :: "nat \<Rightarrow> thread"
  clock :: uint64_t
  history :: "backend_event list"

definition system_init :: system where
  "system_init = \<lparr>s3b_data = ec_protect_create, threads = (\<lambda>_. Idle), clock = 0, history = []\<rparr>"

text \<open>
  An event is one atomic step of one thread, with what the environment decides in it:
  the arguments of a call, the clock values, whether \<^verbatim>\<open>calloc\<close> succeeds, how a wait ends,
  what the inner store returns. \<open>Write_pass\<close> is one pass from \<^verbatim>\<open>again:\<close> (its second
  clock value is the one \<^verbatim>\<open>ec_protect_sleep_until\<close> reads on entry), \<open>Wakeup\<close> the end of a
  wait up to \<^verbatim>\<open>goto again\<close>, \<open>Call_read\<close> the whole locked part of a read.
\<close>

datatype event =
    Call_write nat s3b_block_t "buffer option" "md5_t option" bool
  | Write_pass nat uint64_t bool uint64_t
  | Wakeup nat wakeup uint64_t
  | Inner_write_returns nat int uint64_t
  | Call_read nat s3b_block_t buffer "md5_t option" uint64_t
  | Inner_read_returns nat int buffer

fun event_times :: "event \<Rightarrow> uint64_t list" where
  "event_times (Call_write tid blk src md5 calloc_ok) = []"
| "event_times (Write_pass tid current_time calloc_ok time_before) = [current_time, time_before]"
| "event_times (Wakeup tid w time_wakeup) = [time_wakeup]"
| "event_times (Inner_write_returns tid r now) = [now]"
| "event_times (Call_read tid blk dest expect_md5 now) = [now]"
| "event_times (Inner_read_returns tid r dest) = []"

definition callable :: "thread \<Rightarrow> bool" where
  "callable t = (case t of Idle \<Rightarrow> True | Returned _ _ \<Rightarrow> True | _ \<Rightarrow> False)"

definition thread_step ::
  "ec_protect_conf \<Rightarrow> (buffer \<Rightarrow> md5_t) \<Rightarrow> system \<Rightarrow> event \<Rightarrow> system option" where
  "thread_step config MD5 s ev =
     (case ev of
        Call_write tid blk src0 md5_0 calloc_ok \<Rightarrow>
          if callable (threads s tid)
          then (case write_block_enter config MD5 calloc_ok (s3b_data s) src0 md5_0 of
                  (Inl r, p) \<Rightarrow>
                    Some (s\<lparr>s3b_data := p, threads := (threads s)(tid := Returned r None)\<rparr>)
                | (Inr (src, md5), p) \<Rightarrow>
                    Some (s\<lparr>s3b_data := p, threads := (threads s)(tid := At_again blk src md5)\<rparr>))
          else None
      | Write_pass tid current_time calloc_ok time_before \<Rightarrow>
          (case threads s tid of
             At_again blk src md5 \<Rightarrow>
               (case write_block_again config (s3b_data s) blk src current_time calloc_ok of
                  (Sleep site wake_time, p) \<Rightarrow>
                    Some (s\<lparr>s3b_data := p,
                            threads := (threads s)(tid :=
                              Sleeping site blk src md5 wake_time time_before)\<rparr>)
                | (Writeit binfo, p) \<Rightarrow>
                    Some (s\<lparr>s3b_data := p,
                            threads := (threads s)(tid := In_inner_write blk src md5 binfo),
                            history := history s @ [Write_started blk current_time]\<rparr>)
                | (Return r, p) \<Rightarrow>
                    Some (s\<lparr>s3b_data := p, threads := (threads s)(tid := Returned r None)\<rparr>))
           | _ \<Rightarrow> None)
      | Wakeup tid w time_wakeup \<Rightarrow>
          (case threads s tid of
             Sleeping site blk src md5 wake_time time_before \<Rightarrow>
               (case ec_protect_sleep_until (site = Cache_full) wake_time time_before w
                       time_wakeup of
                  None \<Rightarrow> None
                | Some delay \<Rightarrow>
                    Some (s\<lparr>s3b_data := add_delay site delay (s3b_data s),
                            threads := (threads s)(tid := At_again blk src md5)\<rparr>))
           | _ \<Rightarrow> None)
      | Inner_write_returns tid r now \<Rightarrow>
          (case threads s tid of
             In_inner_write blk src md5 binfo \<Rightarrow>
               (case write_block_finish (s3b_data s) blk binfo md5 r now of
                  (status, p) \<Rightarrow>
                    Some (s\<lparr>s3b_data := p,
                            threads := (threads s)(tid := Returned status None),
                            history := history s @
                              [if r = 0 then Write_completed blk now else Write_failed blk]\<rparr>))
           | _ \<Rightarrow> None)
      | Call_read tid blk dest expect_md5 now \<Rightarrow>
          if callable (threads s tid)
          then (case read_block_locked config (s3b_data s) blk dest expect_md5 now of
                  (Read_return r dest', p) \<Rightarrow>
                    Some (s\<lparr>s3b_data := p, threads := (threads s)(tid := Returned r (Some dest'))\<rparr>)
                | (Read_inner expect, p) \<Rightarrow>
                    Some (s\<lparr>s3b_data := p, threads := (threads s)(tid := In_inner_read blk dest expect)\<rparr>)
                | (Read_undefined, p) \<Rightarrow> None)
          else None
      | Inner_read_returns tid r dest' \<Rightarrow>
          (case threads s tid of
             In_inner_read blk dest expect \<Rightarrow>
               Some (s\<lparr>threads := (threads s)(tid := Returned r (Some dest'))\<rparr>)
           | _ \<Rightarrow> None))"

text \<open>
  One event: the thread's step, and the clock moves to the event's last clock value.
  \<open>None\<close> is an event that cannot happen in the state (the thread is elsewhere, the
  wait never ends, or the read has no defined result).
\<close>

definition step ::
  "ec_protect_conf \<Rightarrow> (buffer \<Rightarrow> md5_t) \<Rightarrow> system \<Rightarrow> event \<Rightarrow> system option" where
  "step config MD5 s ev =
     (case thread_step config MD5 s ev of
        None \<Rightarrow> None
      | Some s' \<Rightarrow> Some (s'\<lparr>clock := last (clock s # event_times ev)\<rparr>))"

fun run ::
  "ec_protect_conf \<Rightarrow> (buffer \<Rightarrow> md5_t) \<Rightarrow> system \<Rightarrow> event list \<Rightarrow> system option" where
  "run config MD5 s [] = Some s"
| "run config MD5 s (ev # evs) =
     (case step config MD5 s ev of
        None \<Rightarrow> None
      | Some s' \<Rightarrow> run config MD5 s' evs)"

text \<open>
  A schedule for the scenario configuration: thread 0 writes block 7 (started at 5,
  completed at 10), thread 1 writes block 8 (started at 15, completed at 20), and thread 2
  calls a write of block 9. It ends in the state below, with the table full and thread 2
  about to take the mutex.
\<close>

definition two_writes_and_a_call :: "event list" where
  "two_writes_and_a_call =
     [Call_write 0 7 (Some [1, 2, 3, 4]) None True, Write_pass 0 5 True 5,
      Inner_write_returns 0 0 10,
      Call_write 1 8 (Some [5, 6, 7, 8]) None True, Write_pass 1 15 True 15,
      Inner_write_returns 1 0 20,
      Call_write 2 9 (Some [1, 1, 1, 1]) None True]"

definition third_writer_called :: system where
  "third_writer_called =
     \<lparr>s3b_data = blocks_7_8_written,
      threads = (\<lambda>_. Idle)(0 := Returned 0 None, 1 := Returned 0 None,
                              2 := At_again 9 (Some [1, 1, 1, 1]) 9),
      clock = 20,
      history = [Write_started 7 5, Write_completed 7 10, Write_started 8 15,
                 Write_completed 8 20]\<rparr>"

text \<open>
  A second schedule, two overlapping writers of block 7: thread 0's write is started at 5;
  thread 1 calls a write of block 7 and finds it WRITING at time 6, so it sleeps until
  106; thread 0's write completes at 10; thread 1 wakes up at 106, finds the block
  WRITTEN at 10, sleeps until 110, and then writes.
\<close>

definition two_writers_of_block_7 :: "event list" where
  "two_writers_of_block_7 =
     [Call_write 0 7 (Some [1, 2, 3, 4]) None True, Write_pass 0 5 True 5,
      Call_write 1 7 (Some [5, 6, 7, 8]) None True, Write_pass 1 6 True 7,
      Inner_write_returns 0 0 10,
      Wakeup 1 ETIMEDOUT 106, Write_pass 1 106 True 106,
      Wakeup 1 ETIMEDOUT 110, Write_pass 1 110 True 110,
      Inner_write_returns 1 0 120]"

text \<open>
  The clock the shim is specified against: it never goes back and never reads zero (the
  value that marks a record as WRITING). \<open>clock_no_wrap\<close> says that every clock value
  stays far enough from the end of the 64-bit range that adding a configured delay does
  not wrap.
\<close>

fun clock_advances :: "uint64_t \<Rightarrow> uint64_t list \<Rightarrow> bool" where
  "clock_advances c [] = True"
| "clock_advances c (t # ts) = (c \<le> t \<and> t \<noteq> 0 \<and> clock_advances t ts)"

fun clock_ok :: "uint64_t \<Rightarrow> event list \<Rightarrow> bool" where
  "clock_ok c [] = True"
| "clock_ok c (ev # evs) =
     (clock_advances c (event_times ev) \<and> clock_ok (last (c # event_times ev)) evs)"

definition no_wrap :: "ec_protect_conf \<Rightarrow> uint64_t \<Rightarrow> bool" where
  "no_wrap config t =
     (unat t + unat (cache_time config) < 2 ^ 64 \<and> unat t + unat (min_write_delay config) < 2 ^ 64)"

definition clock_no_wrap :: "ec_protect_conf \<Rightarrow> event list \<Rightarrow> bool" where
  "clock_no_wrap config evs = list_all (\<lambda>ev. list_all (no_wrap config) (event_times ev)) evs"

text \<open>
  The minimum delay on a history: every start of a backend write of a block that comes
  after a completed write of the same block is at least \<^verbatim>\<open>min_write_delay\<close> later.
\<close>

definition starts_after :: "ec_protect_conf \<Rightarrow> s3b_block_t \<Rightarrow> uint64_t \<Rightarrow> backend_event \<Rightarrow> bool" where
  "starts_after config blk ts e =
     (case e of
        Write_started blk' t \<Rightarrow> blk' \<noteq> blk \<or> unat ts + unat (min_write_delay config) \<le> unat t
      | _ \<Rightarrow> True)"

fun delays_respected :: "ec_protect_conf \<Rightarrow> backend_event list \<Rightarrow> bool" where
  "delays_respected config [] = True"
| "delays_respected config (e # es) =
     ((case e of
         Write_completed blk ts \<Rightarrow> list_all (starts_after config blk ts) es
       | _ \<Rightarrow> True) \<and>
      delays_respected config es)"

text \<open>
  Writes of a block one at a time, on a history: reading it from the start with the
  blocks whose backend write is in flight, a write of a block is never started while
  another write of that block is in flight.
\<close>

fun serialized :: "s3b_block_t list \<Rightarrow> backend_event list \<Rightarrow> bool" where
  "serialized in_flight [] = True"
| "serialized in_flight (Write_started blk t # es) =
     (blk \<notin> set in_flight \<and> serialized (blk # in_flight) es)"
| "serialized in_flight (Write_completed blk t # es) = serialized (removeAll blk in_flight) es"
| "serialized in_flight (Write_failed blk # es) = serialized (removeAll blk in_flight) es"

text \<open>The blocks whose backend write is in flight at the end of a history.\<close>

fun writes_in_flight :: "s3b_block_t list \<Rightarrow> backend_event list \<Rightarrow> s3b_block_t list" where
  "writes_in_flight in_flight [] = in_flight"
| "writes_in_flight in_flight (Write_started blk t # es) = writes_in_flight (blk # in_flight) es"
| "writes_in_flight in_flight (Write_completed blk t # es) =
     writes_in_flight (removeAll blk in_flight) es"
| "writes_in_flight in_flight (Write_failed blk # es) =
     writes_in_flight (removeAll blk in_flight) es"

section \<open>Invariants\<close>

text \<open>
  \<^verbatim>\<open>ec_protect_check_invariants\<close>, as a test: every record of the list has a timestamp
  and is what the hash table holds for its block number, the table's records with a
  timestamp are as many as the list's, and WRITTEN plus WRITING is the table's size.
\<close>

definition ec_protect_check_invariants :: "ec_protect_private \<Rightarrow> bool" where
  "ec_protect_check_invariants priv =
     (list_all (\<lambda>binfo. timestamp (mem priv binfo) \<noteq> 0 \<and>
                  ec_protect_hash_get priv (block_num (mem priv binfo)) = Some binfo)
        (tailq priv) \<and>
      length (filter (\<lambda>(key, binfo). timestamp (mem priv binfo) \<noteq> 0) (hashtable priv)) =
        length (tailq priv) \<and>
      length (filter (\<lambda>(key, binfo). timestamp (mem priv binfo) \<noteq> 0) (hashtable priv)) +
        length (filter (\<lambda>(key, binfo). timestamp (mem priv binfo) = 0) (hashtable priv)) =
        length (hashtable priv))"

text \<open>
  The state table of the header comment, as a predicate on the shared state: block
  numbers are unique keys, every record of the table is allocated and carries its key,
  the list holds exactly the table's records with a timestamp, each once and in
  non-decreasing timestamp order, and the union member stored matches the state.
\<close>

definition written :: "ec_protect_private \<Rightarrow> addr \<Rightarrow> bool" where
  "written priv binfo = (timestamp (mem priv binfo) \<noteq> 0)"

definition tag_ok :: "block_info \<Rightarrow> bool" where
  "tag_ok bi = (case payload bi of U_data _ \<Rightarrow> timestamp bi = 0 | U_md5 _ \<Rightarrow> timestamp bi \<noteq> 0)"

definition priv_inv :: "ec_protect_private \<Rightarrow> bool" where
  "priv_inv p =
     (distinct (map fst (hashtable p)) \<and>
      list_all (\<lambda>(key, binfo). block_num (mem p binfo) = key \<and> live p binfo \<and>
                  binfo < next_addr p \<and> tag_ok (mem p binfo)) (hashtable p) \<and>
      distinct (tailq p) \<and>
      set (tailq p) = {binfo \<in> snd ` set (hashtable p). written p binfo} \<and>
      sorted_wrt (\<lambda>x y. timestamp (mem p x) \<le> timestamp (mem p y)) (tailq p))"

text \<open>The scrubber's test on a record, and the records it unlinks: the expired head run.\<close>

definition expired :: "ec_protect_conf \<Rightarrow> uint64_t \<Rightarrow> ec_protect_private \<Rightarrow> addr \<Rightarrow> bool" where
  "expired config current_time p binfo =
     (timestamp (mem p binfo) + cache_time config \<le> current_time)"

definition scrubbed :: "ec_protect_conf \<Rightarrow> uint64_t \<Rightarrow> ec_protect_private \<Rightarrow> addr list" where
  "scrubbed config current_time p = takeWhile (expired config current_time p) (tailq p)"

text \<open>
  What the threads inside the inner write hold: each is the one writer of its block, and
  its record is the table's record for the block, without a timestamp (WRITING).
\<close>

definition writing_of :: "thread \<Rightarrow> (s3b_block_t \<times> addr) option" where
  "writing_of t = (case t of In_inner_write blk src md5 binfo \<Rightarrow> Some (blk, binfo) | _ \<Rightarrow> None)"

definition writers_inv :: "system \<Rightarrow> bool" where
  "writers_inv s =
     ((\<forall>tid blk binfo. writing_of (threads s tid) = Some (blk, binfo) \<longrightarrow>
         ec_protect_hash_get (s3b_data s) blk = Some binfo \<and> \<not> written (s3b_data s) binfo) \<and>
      (\<forall>tid tid' blk binfo binfo'.
         writing_of (threads s tid) = Some (blk, binfo) \<and>
         writing_of (threads s tid') = Some (blk, binfo') \<longrightarrow> tid = tid'))"

text \<open>No record of the list carries a timestamp later than the clock.\<close>

definition clock_inv :: "system \<Rightarrow> bool" where
  "clock_inv s =
     list_all (\<lambda>binfo. timestamp (mem (s3b_data s) binfo) \<le> clock s) (tailq (s3b_data s))"

text \<open>
  The history and the threads agree: the writes in flight at the end of the history are
  those of the threads inside the inner write, and the history is serialized.
\<close>

definition flight_inv :: "system \<Rightarrow> bool" where
  "flight_inv s =
     (serialized [] (history s) \<and>
      set (writes_in_flight [] (history s)) =
        {blk. \<exists>tid binfo. writing_of (threads s tid) = Some (blk, binfo)})"

definition system_inv :: "system \<Rightarrow> bool" where
  "system_inv s = (priv_inv (s3b_data s) \<and> writers_inv s \<and> clock_inv s)"

text \<open>
  Every completed write of the history either still has its record, WRITTEN with the
  completion time as timestamp, or lies at least \<^verbatim>\<open>min_write_delay\<close> before the clock.
\<close>

definition completed_inv :: "ec_protect_conf \<Rightarrow> system \<Rightarrow> bool" where
  "completed_inv config s =
     (\<forall>blk ts. Write_completed blk ts \<in> set (history s) \<longrightarrow>
        (\<exists>binfo. ec_protect_hash_get (s3b_data s) blk = Some binfo \<and> ts \<noteq> 0 \<and>
                 timestamp (mem (s3b_data s) binfo) = ts) \<or>
        unat ts + unat (min_write_delay config) \<le> unat (clock s))"

section \<open>The scrubber and the write loop, field by field\<close>

lemma scrub_loop_fields:
  "scrub_loop config now p n = (p', n') \<Longrightarrow>
     tailq p' = dropWhile (expired config now p) (tailq p) \<and>
     hashtable p' = filter (\<lambda>e. fst e \<notin> (\<lambda>a. block_num (mem p a)) ` set (scrubbed config now p)) (hashtable p) \<and>
     (\<forall>a. live p' a = (live p a \<and> a \<notin> set (scrubbed config now p))) \<and>
     n' = n + length (scrubbed config now p) \<and>
     mem p' = mem p \<and> stats p' = stats p \<and> zero_block p' = zero_block p \<and>
     next_addr p' = next_addr p \<and> space_cond p' = space_cond p \<and> logged p' = logged p"
proof (induction config now p n arbitrary: p' n' rule: scrub_loop.induct)
  case (1 config now p n)
  show ?case
  proof (cases "tailq p")
    case Nil
    with "1.prems" show ?thesis
      by (simp add: scrub_loop.simps scrubbed_def)
  next
    case (Cons a rest)
    show ?thesis
    proof (cases "expired config now p a")
      case False
      with Cons "1.prems" show ?thesis
        by (simp add: scrub_loop.simps scrubbed_def expired_def)
    next
      case True
      let ?p1 = "free_binfo (ec_protect_hash_remove (tailq_remove p a) (block_num (mem p a))) a"
      from True Cons "1.prems" have call: "scrub_loop config now ?p1 (Suc n) = (p', n')"
        by (simp add: scrub_loop.simps[of config now p] expired_def)
      have exp: "expired config now ?p1 = expired config now p"
        by (rule ext) (simp add: expired_def free_binfo_def ec_protect_hash_remove_def tailq_remove_def)
      have tq: "tailq ?p1 = rest"
        using Cons by (simp add: free_binfo_def ec_protect_hash_remove_def tailq_remove_def)
      have sc: "scrubbed config now p = a # scrubbed config now ?p1"
        using True Cons by (simp add: scrubbed_def exp tq)
      have mm: "mem ?p1 = mem p"
        by (simp add: free_binfo_def ec_protect_hash_remove_def tailq_remove_def)
      have cond: "timestamp (mem p a) + cache_time config \<le> now"
        using True by (simp add: expired_def)
      note IH = "1.IH"[OF Cons cond call]
      have ht: "hashtable ?p1 = filter (\<lambda>e. fst e \<noteq> block_num (mem p a)) (hashtable p)"
        by (auto simp: free_binfo_def ec_protect_hash_remove_def tailq_remove_def AList.delete_eq intro: filter_cong)
      show ?thesis
        using IH True Cons
        apply (simp add: exp tq sc mm ht)
        apply (auto simp: free_binfo_def ec_protect_hash_remove_def tailq_remove_def intro: filter_cong)
        done
    qed
  qed
qed


lemma map_of_filter_keys:
  "map_of (filter (\<lambda>e. fst e \<notin> K) al) k = (if k \<in> K then None else map_of al k)"
  by (induction al) auto

lemma scrub_fields:
  "tailq (ec_protect_scrub_expired_writtens config p now) = dropWhile (expired config now p) (tailq p)"
  "hashtable (ec_protect_scrub_expired_writtens config p now) =
     filter (\<lambda>e. fst e \<notin> (\<lambda>a. block_num (mem p a)) ` set (scrubbed config now p)) (hashtable p)"
  "live (ec_protect_scrub_expired_writtens config p now) =
     (\<lambda>a. live p a \<and> a \<notin> set (scrubbed config now p))"
  "mem (ec_protect_scrub_expired_writtens config p now) = mem p"
  "stats (ec_protect_scrub_expired_writtens config p now) = stats p"
  "zero_block (ec_protect_scrub_expired_writtens config p now) = zero_block p"
  "next_addr (ec_protect_scrub_expired_writtens config p now) = next_addr p"
  "logged (ec_protect_scrub_expired_writtens config p now) = logged p"
  "space_cond (ec_protect_scrub_expired_writtens config p now) =
     space_cond p @ (case length (scrubbed config now p) of
                       0 \<Rightarrow> [] | Suc 0 \<Rightarrow> [Signal] | Suc (Suc _) \<Rightarrow> [Broadcast])"
proof -
  obtain p' n' where loop: "scrub_loop config now p 0 = (p', n')"
    by (cases "scrub_loop config now p 0")
  note f = scrub_loop_fields[OF loop]
  have r: "ec_protect_scrub_expired_writtens config p now =
             (case n' of 0 \<Rightarrow> p' | Suc 0 \<Rightarrow> cond_signal p' | Suc (Suc _) \<Rightarrow> cond_broadcast p')"
    by (simp add: ec_protect_scrub_expired_writtens_def loop)
  have lv: "live p' = (\<lambda>a. live p a \<and> a \<notin> set (scrubbed config now p))"
    using f by auto
  show "tailq (ec_protect_scrub_expired_writtens config p now) = dropWhile (expired config now p) (tailq p)"
    using f by (simp add: r cond_signal_def cond_broadcast_def split: nat.split)
  show "hashtable (ec_protect_scrub_expired_writtens config p now) =
     filter (\<lambda>e. fst e \<notin> (\<lambda>a. block_num (mem p a)) ` set (scrubbed config now p)) (hashtable p)"
    using f by (simp add: r cond_signal_def cond_broadcast_def split: nat.split)
  show "live (ec_protect_scrub_expired_writtens config p now) =
     (\<lambda>a. live p a \<and> a \<notin> set (scrubbed config now p))"
    using lv by (simp add: r cond_signal_def cond_broadcast_def split: nat.split)
  show "mem (ec_protect_scrub_expired_writtens config p now) = mem p"
    using f by (simp add: r cond_signal_def cond_broadcast_def split: nat.split)
  show "stats (ec_protect_scrub_expired_writtens config p now) = stats p"
    using f by (simp add: r cond_signal_def cond_broadcast_def split: nat.split)
  show "zero_block (ec_protect_scrub_expired_writtens config p now) = zero_block p"
    using f by (simp add: r cond_signal_def cond_broadcast_def split: nat.split)
  show "next_addr (ec_protect_scrub_expired_writtens config p now) = next_addr p"
    using f by (simp add: r cond_signal_def cond_broadcast_def split: nat.split)
  show "logged (ec_protect_scrub_expired_writtens config p now) = logged p"
    using f by (simp add: r cond_signal_def cond_broadcast_def split: nat.split)
  show "space_cond (ec_protect_scrub_expired_writtens config p now) =
     space_cond p @ (case length (scrubbed config now p) of
                       0 \<Rightarrow> [] | Suc 0 \<Rightarrow> [Signal] | Suc (Suc _) \<Rightarrow> [Broadcast])"
    using f by (simp add: r cond_signal_def cond_broadcast_def split: nat.split)
qed

lemma hash_get_scrub:
  "ec_protect_hash_get (ec_protect_scrub_expired_writtens config p now) blk =
     (if blk \<in> (\<lambda>a. block_num (mem p a)) ` set (scrubbed config now p) then None
      else ec_protect_hash_get p blk)"
  by (simp only: ec_protect_hash_get_def scrub_fields map_of_filter_keys)

lemma write_block_again_Writeit:
  assumes "write_block_again config p blk src now ok = (Writeit a, p1)"
  shows "ec_protect_hash_get p1 blk = Some a \<and> timestamp (mem p1 a) = 0 \<and>
         payload (mem p1 a) = U_data src \<and> zero_block p1 = zero_block p"
  using assms
  by (auto simp: write_block_again_def Let_def ec_protect_hash_get_def ec_protect_hash_put_def
        calloc_binfo_def tailq_remove_def count_oom_def scrub_fields update_conv'
      split: option.splits list.splits if_splits)

lemma write_block_again_zero_block:
  "zero_block (snd (write_block_again config p blk src now ok)) = zero_block p"
  by (auto simp: write_block_again_def Let_def ec_protect_hash_get_def ec_protect_hash_put_def
        calloc_binfo_def tailq_remove_def count_oom_def scrub_fields
      split: option.splits list.splits if_splits)

lemma write_block_loop_Writeit:
  "write_block_loop config p blk src passes = Some (Inr a, p1) \<Longrightarrow>
     ec_protect_hash_get p1 blk = Some a \<and> timestamp (mem p1 a) = 0 \<and>
     payload (mem p1 a) = U_data src"
proof (induction passes arbitrary: p)
  case Nil
  then show ?case by simp
next
  case (Cons e es)
  obtain res p0 where ag: "write_block_again config p blk src (pe_current_time e) (pe_calloc_ok e) = (res, p0)"
    by (cases "write_block_again config p blk src (pe_current_time e) (pe_calloc_ok e)")
  show ?case
  proof (cases res)
    case (Sleep site wake)
    with Cons.prems ag obtain delay where
      "write_block_loop config (add_delay site delay p0) blk src es = Some (Inr a, p1)"
      by (auto split: option.splits)
    then show ?thesis by (rule Cons.IH)
  next
    case (Writeit b)
    with Cons.prems ag have "b = a" "p0 = p1" by auto
    with Writeit ag write_block_again_Writeit show ?thesis by blast
  next
    case (Return r)
    with Cons.prems ag show ?thesis by simp
  qed
qed

lemma read_block_locked_miss:
  "ec_protect_hash_get (ec_protect_scrub_expired_writtens config p now) blk = None \<Longrightarrow>
   read_block_locked config p blk dest e now =
     (Read_inner e, ec_protect_scrub_expired_writtens config p now)"
  by (simp add: read_block_locked_def)

lemma read_block_locked_writing:
  "ec_protect_hash_get (ec_protect_scrub_expired_writtens config p now) blk = Some a \<Longrightarrow>
   timestamp (mem p a) = 0 \<Longrightarrow> payload (mem p a) = U_data d \<Longrightarrow>
   read_block_locked config p blk dest e now =
     (Read_return 0 (case d of None \<Rightarrow> memset_zero dest (block_size config)
                      | Some data \<Rightarrow> memcpy dest data (block_size config)),
      count_hit (ec_protect_scrub_expired_writtens config p now))"
  by (simp add: read_block_locked_def scrub_fields split: option.splits)

lemma read_block_locked_written:
  "ec_protect_hash_get (ec_protect_scrub_expired_writtens config p now) blk = Some a \<Longrightarrow>
   timestamp (mem p a) \<noteq> 0 \<Longrightarrow> payload (mem p a) = U_md5 m \<Longrightarrow>
   read_block_locked config p blk dest e now =
     (if m = zero_md5
      then (Read_return 0 (memset_zero dest (block_size config)),
            count_hit (ec_protect_scrub_expired_writtens config p now))
      else (Read_inner (Some m),
            if e \<noteq> None \<and> e \<noteq> Some m
            then log_err (ec_protect_scrub_expired_writtens config p now) impossible_md5
            else ec_protect_scrub_expired_writtens config p now))"
  by (simp add: read_block_locked_def scrub_fields)

lemma write_block_again_Return:
  "write_block_again config p blk src now ok = (Return r, p1) \<Longrightarrow> r = ENOMEM"
  by (auto simp: write_block_again_def Let_def split: option.splits list.splits if_splits prod.splits)

lemma write_block_loop_Return:
  "write_block_loop config p blk src passes = Some (Inl r, p1) \<Longrightarrow> r = ENOMEM"
proof (induction passes arbitrary: p)
  case Nil
  then show ?case by simp
next
  case (Cons e es)
  obtain res p0 where ag: "write_block_again config p blk src (pe_current_time e) (pe_calloc_ok e) = (res, p0)"
    by (cases "write_block_again config p blk src (pe_current_time e) (pe_calloc_ok e)")
  show ?case
  proof (cases res)
    case (Sleep site wake)
    with Cons.prems ag obtain delay where
      "write_block_loop config (add_delay site delay p0) blk src es = Some (Inl r, p1)"
      by (auto split: option.splits)
    then show ?thesis by (rule Cons.IH)
  next
    case (Writeit b)
    with Cons.prems ag show ?thesis by simp
  next
    case (Return r')
    with Cons.prems ag have "r' = r" by simp
    with Return ag write_block_again_Return show ?thesis by blast
  qed
qed

lemma write_block_success:
  assumes "ec_protect_write_block config MD5 inner ok passes td (priv, be) blk src0 md5_0 =
             Some (0, priv', be')"
  shows "\<exists>src md5 p0 a.
           write_block_enter config MD5 ok priv src0 md5_0 = (Inr (src, md5), p0) \<and>
           write_block inner be blk src md5 = (0, be') \<and>
           ec_protect_hash_get priv' blk = Some a \<and>
           timestamp (mem priv' a) = td \<and> payload (mem priv' a) = U_md5 md5"
proof -
  obtain res p0 where en: "write_block_enter config MD5 ok priv src0 md5_0 = (res, p0)"
    by (cases "write_block_enter config MD5 ok priv src0 md5_0")
  have nz: "EINVAL \<noteq> 0" "ENOMEM \<noteq> 0" by (simp_all add: EINVAL_def ENOMEM_def)
  show ?thesis
  proof (cases res)
    case (Inl r)
    with en have "r = EINVAL \<or> r = ENOMEM"
      by (auto simp: write_block_enter_def split: if_splits option.splits)
    with assms en Inl nz show ?thesis
      by (auto simp: ec_protect_write_block_def)
  next
    case (Inr sm)
    obtain src md5 where sm: "sm = (src, md5)" by (cases sm)
    from assms en Inr sm obtain lr p1 where
      lp: "write_block_loop config p0 blk src passes = Some (lr, p1)"
      by (auto simp: ec_protect_write_block_def split: option.splits)
    show ?thesis
    proof (cases lr)
      case (Inl r)
      have "r = ENOMEM" using lp Inl write_block_loop_Return by blast
      with assms en Inr sm lp Inl nz show ?thesis
        by (auto simp: ec_protect_write_block_def)
    next
      case (Inr a)
      obtain r be1 where iw: "write_block inner be blk src md5 = (r, be1)"
        by (cases "write_block inner be blk src md5")
      from assms en \<open>res = Inr sm\<close> sm lp Inr iw
      have fin: "write_block_finish p1 blk a md5 r td = (0, priv')" and be1: "be1 = be'"
        by (auto simp: ec_protect_write_block_def split: prod.splits)
      from fin have r0: "r = 0"
        by (auto simp: write_block_finish_def split: if_splits)
      from write_block_loop_Writeit lp Inr
      have "ec_protect_hash_get p1 blk = Some a" by blast
      with fin r0 have "ec_protect_hash_get priv' blk = Some a \<and>
           timestamp (mem priv' a) = td \<and> payload (mem priv' a) = U_md5 md5"
        by (auto simp: write_block_finish_def tailq_insert_tail_def ec_protect_hash_get_def)
      with en \<open>res = Inr sm\<close> sm iw r0 be1 show ?thesis by auto
    qed
  qed
qed


text \<open>Unfolding the model on concrete inputs.\<close>

lemma replicate_4: "replicate 4 x = [x, x, x, x]"
  by (simp add: numeral_eq_Suc)

lemmas run_defs =
  ec_protect_write_block_def write_block_enter_def write_block_source_def memcmp_eq_def
  write_block_again_def ec_protect_hash_get_def scrub_fields map_of_filter_keys scrubbed_def expired_def
  calloc_binfo_def ec_protect_hash_put_def write_block_finish_def tailq_insert_tail_def tailq_remove_def
  ec_protect_hash_remove_def free_binfo_def cond_signal_def count_oom_def count_hit_def
  ec_protect_read_block_def read_block_locked_def write_then_read_def
  memset_zero_def memcpy_def zero_md5_def log_err_def Let_def

lemmas scenario_defs =
  scenario_conf_def ec_protect_create_def block7_written_def block5_writing_def blocks_7_8_written_def pass_at_def counting_store_def
  faithful_store_def failing_store_def EIO_def replicate_4 stub_md5_def empty_store_def

lemma write_block_source_given:
  "write_block_source config MD5 zb (Some s) (Some m) =
     (if memcmp_eq s zb (block_size config) then (None, zero_md5) else (Some s, m))"
  by (simp add: write_block_source_def)

lemma write_block_source_nonzero:
  "take (block_size config) s \<noteq> replicate (block_size config) 0 \<Longrightarrow>
   write_block_source config MD5 (replicate (block_size config) 0) (Some s) md5 =
     (Some s, case md5 of None \<Rightarrow> MD5 (take (block_size config) s) | Some m \<Rightarrow> m)"
  by (simp add: write_block_source_def memcmp_eq_def split: option.splits)

lemma write_block_source_zero:
  "take (block_size config) s = replicate (block_size config) 0 \<Longrightarrow>
   write_block_source config MD5 (replicate (block_size config) 0) (Some s) md5 = (None, zero_md5)"
  by (simp add: write_block_source_def memcmp_eq_def)

lemma write_block_enter_Inr:
  assumes "zero_block_ok config priv"
      and "write_block_enter config MD5 ok priv src md5 = (Inr sm, p0)"
  shows "sm = write_block_source config MD5 (replicate (block_size config) 0) src md5"
  using assms
  by (auto simp: write_block_enter_def zero_block_ok_def split: if_splits option.splits)

lemma hash_get_scrub_cases:
  "ec_protect_hash_get (ec_protect_scrub_expired_writtens config p now) blk = None \<or>
   ec_protect_hash_get (ec_protect_scrub_expired_writtens config p now) blk = ec_protect_hash_get p blk"
  by (simp add: hash_get_scrub)

lemma scenario_write_5:
  "ec_protect_write_block scenario_conf stub_md5 counting_store True [pass_at 5] 10
     (ec_protect_create, 0) 7 (Some [1, 2, 3, 4]) (Some 5) = Some (0, block7_written 5, 0)"
  by (simp add: run_defs scenario_defs)


lemma read_zero_representation:
  assumes "ec_protect_hash_get (ec_protect_scrub_expired_writtens config p now) blk = Some a"
      and "timestamp (mem p a) = 0 \<and> payload (mem p a) = U_data None \<or>
           timestamp (mem p a) \<noteq> 0 \<and> payload (mem p a) = U_md5 zero_md5"
  shows "\<exists>p'. ec_protect_read_block config inner now (p, be) blk dest expect_md5 =
                Some ((0, memset_zero dest (block_size config)), p', be) \<and>
              cache_data_hits (stats p') = cache_data_hits (stats p) + 1"
  using assms
  by (auto simp: ec_protect_read_block_def read_block_locked_written read_block_locked_writing
        count_hit_def scrub_fields)

lemma write_zero_same:
  assumes "zero_block_ok config priv"
  shows "write_block_enter config MD5 calloc_ok priv (Some (replicate (block_size config) 0)) md5 =
         write_block_enter config MD5' calloc_ok priv None md5'"
  using assms
  by (auto simp: write_block_enter_def write_block_source_def memcmp_eq_def zero_block_ok_def
      split: option.splits)

lemma scenario_write_null:
  "ec_protect_write_block scenario_conf (\<lambda>_. 3) counting_store True [pass_at 5] 10
     (ec_protect_create, 0) 7 None (Some 5) = Some (0, block7_written 0, 0)"
  by (simp add: run_defs scenario_defs)

lemma length_delete_less:
  "map_of al k \<noteq> None \<Longrightarrow> length (AList.delete k al) < length al"
  by (induction al) (auto simp: le_imp_less_Suc length_delete_le)

lemma write_block_again_clean:
  assumes "ec_protect_hash_get p blk = None"
  shows "fst (write_block_again config p blk src now ok) =
     (let p1 = ec_protect_scrub_expired_writtens config p now in
      if cache_size config \<le> length (hashtable p1)
      then Sleep Cache_full (case tailq p1 of [] \<Rightarrow> 0
                             | first # _ \<Rightarrow> timestamp (mem p1 first) + cache_time config)
      else if ok then Writeit (next_addr p1) else Return ENOMEM)"
proof -
  from assms have "ec_protect_hash_get (ec_protect_scrub_expired_writtens config p now) blk = None"
    by (simp add: hash_get_scrub)
  then show ?thesis
    by (simp add: write_block_again_def Let_def calloc_binfo_def split: list.splits)
qed


lemma take_memcpy:
  "block_size config \<le> length data \<Longrightarrow>
   take (block_size config) (memcpy dest data (block_size config)) = take (block_size config) data"
  by (simp add: memcpy_def)

lemma take_memset_zero:
  "take n (memset_zero dest n) = replicate n 0"
  by (simp add: memset_zero_def)


lemma read_block_written_inner:
  assumes "ec_protect_hash_get (ec_protect_scrub_expired_writtens config priv now) blk = Some binfo"
      and "timestamp (mem priv binfo) \<noteq> 0"
      and "payload (mem priv binfo) = U_md5 md5"
      and "md5 \<noteq> zero_md5"
  shows "\<exists>priv'. ec_protect_read_block config inner now (priv, be) blk dest expect_md5 =
            Some (fst (read_block inner be blk dest (Some md5)), priv',
                  snd (read_block inner be blk dest (Some md5)))"
  using assms
  by (auto simp: ec_protect_read_block_def read_block_locked_written split: prod.splits)

section \<open>The state table is kept by the scrubber\<close>

lemma takeWhile_filter_sorted:
  "sorted_wrt R xs \<Longrightarrow> (\<And>x y. x \<in> set xs \<Longrightarrow> y \<in> set xs \<Longrightarrow> R x y \<Longrightarrow> P y \<Longrightarrow> P x) \<Longrightarrow>
   takeWhile P xs = filter P xs"
proof (induction xs)
  case Nil
  then show ?case by simp
next
  case (Cons a xs)
  show ?case
  proof (cases "P a")
    case True
    have "takeWhile P xs = filter P xs"
      by (rule Cons.IH) (use Cons.prems in auto)
    with True show ?thesis by simp
  next
    case False
    with Cons.prems have "\<forall>x\<in>set xs. \<not> P x" by auto
    then have "filter P xs = []" by (simp add: filter_empty_conv)
    with False show ?thesis by simp
  qed
qed

lemma dropWhile_filter_sorted:
  "sorted_wrt R xs \<Longrightarrow> (\<And>x y. x \<in> set xs \<Longrightarrow> y \<in> set xs \<Longrightarrow> R x y \<Longrightarrow> P y \<Longrightarrow> P x) \<Longrightarrow>
   dropWhile P xs = filter (\<lambda>x. \<not> P x) xs"
proof (induction xs)
  case Nil
  then show ?case by simp
next
  case (Cons a xs)
  show ?case
  proof (cases "P a")
    case True
    have "dropWhile P xs = filter (\<lambda>x. \<not> P x) xs"
      by (rule Cons.IH) (use Cons.prems in auto)
    with True show ?thesis by simp
  next
    case False
    with Cons.prems have "\<forall>x\<in>set xs. \<not> P x" by auto
    then have "filter (\<lambda>x. \<not> P x) xs = xs" by (simp add: filter_id_conv)
    with False show ?thesis by simp
  qed
qed

lemma expired_mono:
  assumes "timestamp (mem p x) \<le> timestamp (mem p y)"
      and "unat (timestamp (mem p y)) + unat (cache_time config) < 2 ^ 64"
      and "expired config now p y"
  shows "expired config now p x"
proof -
  from assms(1) have le: "unat (timestamp (mem p x)) \<le> unat (timestamp (mem p y))"
    by (simp add: word_le_nat_alt)
  with assms(2) have nx: "unat (timestamp (mem p x)) + unat (cache_time config) < 2 ^ 64" by simp
  have ex: "unat (timestamp (mem p x) + cache_time config) =
            unat (timestamp (mem p x)) + unat (cache_time config)"
    using nx by (simp add: unat_add_lem [THEN iffD1])
  have ey: "unat (timestamp (mem p y) + cache_time config) =
            unat (timestamp (mem p y)) + unat (cache_time config)"
    using assms(2) by (simp add: unat_add_lem [THEN iffD1])
  from assms(3) have "unat (timestamp (mem p y) + cache_time config) \<le> unat now"
    by (simp add: expired_def word_le_nat_alt)
  with ex ey le show ?thesis
    by (simp add: expired_def word_le_nat_alt)
qed

lemma priv_invD:
  assumes "priv_inv p"
  shows "distinct (map fst (hashtable p))"
    and "\<And>k a. (k, a) \<in> set (hashtable p) \<Longrightarrow>
           block_num (mem p a) = k \<and> live p a \<and> a < next_addr p \<and> tag_ok (mem p a)"
    and "distinct (tailq p)"
    and "\<And>a. a \<in> set (tailq p) \<longleftrightarrow> (\<exists>k. (k, a) \<in> set (hashtable p)) \<and> written p a"
    and "sorted_wrt (\<lambda>x y. timestamp (mem p x) \<le> timestamp (mem p y)) (tailq p)"
  using assms by (auto simp: priv_inv_def list_all_iff intro: rev_image_eqI)

lemma priv_invI:
  assumes "distinct (map fst (hashtable p))"
    and "\<And>k a. (k, a) \<in> set (hashtable p) \<Longrightarrow>
           block_num (mem p a) = k \<and> live p a \<and> a < next_addr p \<and> tag_ok (mem p a)"
    and "distinct (tailq p)"
    and "\<And>a. a \<in> set (tailq p) \<longleftrightarrow> (\<exists>k. (k, a) \<in> set (hashtable p)) \<and> written p a"
    and "sorted_wrt (\<lambda>x y. timestamp (mem p x) \<le> timestamp (mem p y)) (tailq p)"
  shows "priv_inv p"
  unfolding priv_inv_def list_all_iff using assms
  apply (auto simp: image_iff)
  apply (metis snd_conv)
  done

lemma priv_inv_key_addr:
  assumes "priv_inv p" "(k, a) \<in> set (hashtable p)" "(k', a') \<in> set (hashtable p)"
  shows "k = k' \<longleftrightarrow> a = a'"
proof
  assume "k = k'"
  with assms eq_key_imp_eq_value [OF priv_invD(1) [OF assms(1)]] show "a = a'" by blast
next
  assume "a = a'"
  with priv_invD(2) [OF assms(1)] assms(2,3) show "k = k'" by blast
qed

lemma scrubbed_subset: "set (scrubbed config now p) \<subseteq> set (tailq p)"
  by (auto simp: scrubbed_def dest: set_takeWhileD)

lemma scrubbed_expired: "a \<in> set (scrubbed config now p) \<Longrightarrow> expired config now p a"
  by (auto simp: scrubbed_def dest: set_takeWhileD)

lemma scrub_hashtable_inv:
  assumes "priv_inv p"
  shows "hashtable (ec_protect_scrub_expired_writtens config p now) =
         filter (\<lambda>e. snd e \<notin> set (scrubbed config now p)) (hashtable p)"
proof -
  have "fst e \<in> (\<lambda>a. block_num (mem p a)) ` set (scrubbed config now p) \<longleftrightarrow>
        snd e \<in> set (scrubbed config now p)" if e: "e \<in> set (hashtable p)" for e
  proof
    assume "fst e \<in> (\<lambda>a. block_num (mem p a)) ` set (scrubbed config now p)"
    then obtain a' where a': "a' \<in> set (scrubbed config now p)" "fst e = block_num (mem p a')"
      by auto
    with scrubbed_subset have "a' \<in> set (tailq p)" by blast
    with priv_invD(4) [OF assms] obtain k where k: "(k, a') \<in> set (hashtable p)" by blast
    with priv_invD(2) [OF assms] a' have "k = fst e" by auto
    with priv_inv_key_addr [OF assms k, of "fst e" "snd e"] e have "a' = snd e" by simp
    with a' show "snd e \<in> set (scrubbed config now p)" by simp
  next
    assume "snd e \<in> set (scrubbed config now p)"
    moreover from priv_invD(2) [OF assms, of "fst e" "snd e"] e
    have "block_num (mem p (snd e)) = fst e" by simp
    ultimately show "fst e \<in> (\<lambda>a. block_num (mem p a)) ` set (scrubbed config now p)"
      by force
  qed
  then show ?thesis
    by (simp add: scrub_fields cong: filter_cong)
qed

lemma set_dropWhile_distinct:
  "distinct xs \<Longrightarrow> set (dropWhile P xs) = set xs - set (takeWhile P xs)"
proof -
  assume d: "distinct xs"
  have "xs = takeWhile P xs @ dropWhile P xs" by simp
  with d have "distinct (takeWhile P xs @ dropWhile P xs)" by simp
  then have "set (takeWhile P xs) \<inter> set (dropWhile P xs) = {}"
    by (simp only: distinct_append)
  moreover have "set xs = set (takeWhile P xs) \<union> set (dropWhile P xs)"
    by (metis set_append takeWhile_dropWhile_id)
  ultimately show ?thesis by auto
qed

lemma sorted_wrt_dropWhile_any: "sorted_wrt R xs \<Longrightarrow> sorted_wrt R (dropWhile P xs)"
  by (metis sorted_wrt_append takeWhile_dropWhile_id)

lemma scrub_priv_inv:
  assumes "priv_inv p"
  shows "priv_inv (ec_protect_scrub_expired_writtens config p now)"
proof (rule priv_invI)
  let ?p' = "ec_protect_scrub_expired_writtens config p now"
  let ?S = "set (scrubbed config now p)"
  note ht = scrub_hashtable_inv [OF assms, of config now]
  show "distinct (map fst (hashtable ?p'))"
    using priv_invD(1) [OF assms] by (simp only: ht distinct_map_filter)
  show "block_num (mem ?p' a) = k \<and> live ?p' a \<and> a < next_addr ?p' \<and> tag_ok (mem ?p' a)"
    if "(k, a) \<in> set (hashtable ?p')" for k a
    using that priv_invD(2) [OF assms, of k a] by (auto simp: ht scrub_fields(3,4,7))
  show "distinct (tailq ?p')"
    using priv_invD(3) [OF assms] by (simp add: scrub_fields)
  show "a \<in> set (tailq ?p') \<longleftrightarrow> (\<exists>k. (k, a) \<in> set (hashtable ?p')) \<and> written ?p' a" for a
    using priv_invD(4) [OF assms, of a] set_dropWhile_distinct [OF priv_invD(3) [OF assms]]
    by (auto simp: ht scrub_fields(1,4) scrubbed_def written_def)
  show "sorted_wrt (\<lambda>x y. timestamp (mem ?p' x) \<le> timestamp (mem ?p' y)) (tailq ?p')"
    using priv_invD(5) [OF assms] by (simp add: scrub_fields sorted_wrt_dropWhile_any)
qed


lemma blocks_7_8_inv: "priv_inv blocks_7_8_written"
  by (auto simp: priv_inv_def written_def tag_ok_def scenario_defs)


section \<open>The state table is kept by the write path\<close>

lemma priv_inv_cong:
  "hashtable p' = hashtable p \<Longrightarrow> tailq p' = tailq p \<Longrightarrow> mem p' = mem p \<Longrightarrow> live p' = live p \<Longrightarrow>
   next_addr p' = next_addr p \<Longrightarrow> priv_inv p' = priv_inv p"
  by (simp add: priv_inv_def written_def)

lemma hash_get_in_table:
  "ec_protect_hash_get p blk = Some a \<Longrightarrow> (blk, a) \<in> set (hashtable p)"
  by (simp add: ec_protect_hash_get_def map_of_SomeD)

lemma in_table_hash_get:
  "priv_inv p \<Longrightarrow> (blk, a) \<in> set (hashtable p) \<Longrightarrow> ec_protect_hash_get p blk = Some a"
  by (simp add: ec_protect_hash_get_def priv_invD(1))

lemma update_absent: "map_of al k = None \<Longrightarrow> AList.update k v al = al @ [(k, v)]"
  by (induction al) (auto split: if_splits)

text \<open>The two ways a pass reaches writeit, and the other outcomes.\<close>

lemma write_block_again_cases:
  assumes "write_block_again config p blk src now ok = (res, p')"
  defines "p1 \<equiv> ec_protect_scrub_expired_writtens config p now"
  shows "(\<exists>site wake. res = Sleep site wake \<and> p' = p1) \<or>
         (res = Return ENOMEM \<and> p' = count_oom p1) \<or>
         (res = Writeit (next_addr p1) \<and> ec_protect_hash_get p1 blk = None \<and>
            length (hashtable p1) < cache_size config \<and>
            hashtable p' = hashtable p1 @ [(blk, next_addr p1)] \<and> tailq p' = tailq p1 \<and>
            mem p' = (mem p1)(next_addr p1 := \<lparr>block_num = blk, timestamp = 0, payload = U_data src\<rparr>) \<and>
            live p' = (live p1)(next_addr p1 := True) \<and> next_addr p' = Suc (next_addr p1)) \<or>
         (\<exists>a. res = Writeit a \<and> ec_protect_hash_get p1 blk = Some a \<and> written p1 a \<and>
            \<not> now < timestamp (mem p1 a) + min_write_delay config \<and>
            hashtable p' = hashtable p1 \<and> tailq p' = remove1 a (tailq p1) \<and>
            mem p' = (mem p1)(a := (mem p1 a)\<lparr>timestamp := 0, payload := U_data src\<rparr>) \<and>
            live p' = live p1 \<and> next_addr p' = next_addr p1)"
proof (cases "ec_protect_hash_get p1 blk")
  case None
  then have "map_of (hashtable p1) blk = None" by (simp add: ec_protect_hash_get_def)
  note upd = update_absent [OF this]
  from assms(1) None show ?thesis
    unfolding write_block_again_def p1_def [symmetric] Let_def
    by (auto simp: calloc_binfo_def ec_protect_hash_put_def upd split: if_splits list.splits)
next
  case (Some a)
  with assms(1) show ?thesis
    unfolding write_block_again_def p1_def [symmetric] Let_def
    by (auto simp: tailq_remove_def written_def split: if_splits)
qed


lemma sorted_wrt_cong_set:
  "(\<And>x y. x \<in> set xs \<Longrightarrow> y \<in> set xs \<Longrightarrow> R x y = R' x y) \<Longrightarrow>
   sorted_wrt R xs = sorted_wrt R' xs"
  by (induction xs) auto

lemma priv_inv_insert:
  assumes inv: "priv_inv p1"
      and absent: "ec_protect_hash_get p1 blk = None"
      and flds: "hashtable p' = hashtable p1 @ [(blk, next_addr p1)]" "tailq p' = tailq p1"
        "mem p' = (mem p1)(next_addr p1 := \<lparr>block_num = blk, timestamp = 0, payload = U_data src\<rparr>)"
        "live p' = (live p1)(next_addr p1 := True)" "next_addr p' = Suc (next_addr p1)"
  shows "priv_inv p'"
proof (rule priv_invI)
  note D = priv_invD [OF inv]
  have old: "a < next_addr p1" if "(k, a) \<in> set (hashtable p1)" for k a
    using D(2) [OF that] by simp
  have oldq: "a < next_addr p1" if "a \<in> set (tailq p1)" for a
    using D(4) [of a] that old by blast
  from absent have nokey: "blk \<notin> fst ` set (hashtable p1)"
    by (simp add: ec_protect_hash_get_def map_of_eq_None_iff)
  show "distinct (map fst (hashtable p'))"
    using D(1) nokey by (simp add: flds)
  show "block_num (mem p' a) = k \<and> live p' a \<and> a < next_addr p' \<and> tag_ok (mem p' a)"
    if "(k, a) \<in> set (hashtable p')" for k a
    using that D(2) [of k a] old [of k a] by (auto simp: flds tag_ok_def)
  show "distinct (tailq p')" using D(3) by (simp add: flds)
  show "a \<in> set (tailq p') \<longleftrightarrow> (\<exists>k. (k, a) \<in> set (hashtable p')) \<and> written p' a" for a
    using D(4) [of a] old [of _ a] by (auto simp: flds written_def)
  have "timestamp (mem p' x) = timestamp (mem p1 x)" if "x \<in> set (tailq p1)" for x
    using oldq [OF that] by (simp add: flds)
  then have "sorted_wrt (\<lambda>x y. timestamp (mem p' x) \<le> timestamp (mem p' y)) (tailq p1) =
             sorted_wrt (\<lambda>x y. timestamp (mem p1 x) \<le> timestamp (mem p1 y)) (tailq p1)"
    by (intro sorted_wrt_cong_set) auto
  with D(5) show "sorted_wrt (\<lambda>x y. timestamp (mem p' x) \<le> timestamp (mem p' y)) (tailq p')"
    by (simp add: flds)
qed

lemma sorted_wrt_remove1: "sorted_wrt R xs \<Longrightarrow> sorted_wrt R (remove1 a xs)"
  by (induction xs) (auto dest: notin_set_remove1)

lemma priv_inv_demote:
  assumes inv: "priv_inv p1"
      and found: "ec_protect_hash_get p1 blk = Some a"
      and flds: "hashtable p' = hashtable p1" "tailq p' = remove1 a (tailq p1)"
        "mem p' = (mem p1)(a := (mem p1 a)\<lparr>timestamp := 0, payload := U_data src\<rparr>)"
        "live p' = live p1" "next_addr p' = next_addr p1"
  shows "priv_inv p'"
proof (rule priv_invI)
  note D = priv_invD [OF inv]
  show "distinct (map fst (hashtable p'))" using D(1) by (simp add: flds)
  show "block_num (mem p' b) = k \<and> live p' b \<and> b < next_addr p' \<and> tag_ok (mem p' b)"
    if "(k, b) \<in> set (hashtable p')" for k b
    using that D(2) [of k b] by (auto simp: flds tag_ok_def)
  show "distinct (tailq p')" using D(3) by (simp add: flds)
  show "b \<in> set (tailq p') \<longleftrightarrow> (\<exists>k. (k, b) \<in> set (hashtable p')) \<and> written p' b" for b
    using D(4) [of b] D(3) by (auto simp: flds written_def)
  have "timestamp (mem p' x) = timestamp (mem p1 x)" if "x \<in> set (remove1 a (tailq p1))" for x
    using that D(3) by (auto simp: flds)
  then have "sorted_wrt (\<lambda>x y. timestamp (mem p' x) \<le> timestamp (mem p' y)) (remove1 a (tailq p1)) =
             sorted_wrt (\<lambda>x y. timestamp (mem p1 x) \<le> timestamp (mem p1 y)) (remove1 a (tailq p1))"
    by (intro sorted_wrt_cong_set) auto
  with D(5) show "sorted_wrt (\<lambda>x y. timestamp (mem p' x) \<le> timestamp (mem p' y)) (tailq p')"
    by (simp add: flds sorted_wrt_remove1)
qed

lemma priv_inv_write_failed:
  assumes inv: "priv_inv p"
      and found: "ec_protect_hash_get p blk = Some a" and writing: "\<not> written p a"
  shows "priv_inv (free_binfo (cond_signal (ec_protect_hash_remove p blk)) a)"
proof (rule priv_invI)
  let ?p' = "free_binfo (cond_signal (ec_protect_hash_remove p blk)) a"
  note D = priv_invD [OF inv]
  have flds: "hashtable ?p' = filter (\<lambda>e. fst e \<noteq> blk) (hashtable p)" "tailq ?p' = tailq p"
    "mem ?p' = mem p" "live ?p' = (live p)(a := False)" "next_addr ?p' = next_addr p"
    by (auto simp: free_binfo_def cond_signal_def ec_protect_hash_remove_def AList.delete_eq
        intro: filter_cong)
  note ba = hash_get_in_table [OF found]
  show "distinct (map fst (hashtable ?p'))" using D(1) by (simp only: flds distinct_map_filter)
  show "block_num (mem ?p' b) = k \<and> live ?p' b \<and> b < next_addr ?p' \<and> tag_ok (mem ?p' b)"
    if "(k, b) \<in> set (hashtable ?p')" for k b
  proof -
    from that have kb: "(k, b) \<in> set (hashtable p)" "k \<noteq> blk" by (auto simp: flds)
    with priv_inv_key_addr [OF inv kb(1) ba] have "b \<noteq> a" by simp
    with D(2) [OF kb(1)] show ?thesis by (simp add: flds)
  qed
  show "distinct (tailq ?p')" using D(3) by (simp add: flds)
  show "b \<in> set (tailq ?p') \<longleftrightarrow> (\<exists>k. (k, b) \<in> set (hashtable ?p')) \<and> written ?p' b" for b
  proof
    assume "b \<in> set (tailq ?p')"
    with D(4) [of b] obtain k where k: "(k, b) \<in> set (hashtable p)" "written p b"
      by (auto simp: flds)
    with writing have "b \<noteq> a" by auto
    with priv_inv_key_addr [OF inv k(1) ba] have "k \<noteq> blk" by simp
    with k show "(\<exists>k. (k, b) \<in> set (hashtable ?p')) \<and> written ?p' b"
      by (auto simp: flds written_def)
  next
    assume "(\<exists>k. (k, b) \<in> set (hashtable ?p')) \<and> written ?p' b"
    with D(4) [of b] show "b \<in> set (tailq ?p')" by (auto simp: flds written_def)
  qed
  show "sorted_wrt (\<lambda>x y. timestamp (mem ?p' x) \<le> timestamp (mem ?p' y)) (tailq ?p')"
    using D(5) by (simp add: flds)
qed

lemma priv_inv_write_done:
  assumes inv: "priv_inv p"
      and found: "ec_protect_hash_get p blk = Some a" and writing: "\<not> written p a"
      and now: "now \<noteq> 0" and le: "\<forall>x\<in>set (tailq p). timestamp (mem p x) \<le> now"
  shows "priv_inv (tailq_insert_tail
            (p\<lparr>mem := (mem p)(a := (mem p a)\<lparr>timestamp := now, payload := U_md5 md5\<rparr>)\<rparr>) a)"
proof (rule priv_invI)
  let ?p' = "tailq_insert_tail
            (p\<lparr>mem := (mem p)(a := (mem p a)\<lparr>timestamp := now, payload := U_md5 md5\<rparr>)\<rparr>) a"
  note D = priv_invD [OF inv]
  have flds: "hashtable ?p' = hashtable p" "tailq ?p' = tailq p @ [a]"
    "mem ?p' = (mem p)(a := (mem p a)\<lparr>timestamp := now, payload := U_md5 md5\<rparr>)"
    "live ?p' = live p" "next_addr ?p' = next_addr p"
    by (simp_all add: tailq_insert_tail_def)
  note ba = hash_get_in_table [OF found]
  from writing D(4) [of a] have notin: "a \<notin> set (tailq p)" by simp
  show "distinct (map fst (hashtable ?p'))" using D(1) by (simp add: flds)
  show "block_num (mem ?p' b) = k \<and> live ?p' b \<and> b < next_addr ?p' \<and> tag_ok (mem ?p' b)"
    if "(k, b) \<in> set (hashtable ?p')" for k b
    using that D(2) [of k b] now by (auto simp: flds tag_ok_def)
  show "distinct (tailq ?p')" using D(3) notin by (simp add: flds)
  show "b \<in> set (tailq ?p') \<longleftrightarrow> (\<exists>k. (k, b) \<in> set (hashtable ?p')) \<and> written ?p' b" for b
    using D(4) [of b] ba now by (auto simp: flds written_def)
  have same: "timestamp (mem ?p' x) = timestamp (mem p x)" if "x \<in> set (tailq p)" for x
    using that notin by (auto simp: flds)
  then have "sorted_wrt (\<lambda>x y. timestamp (mem ?p' x) \<le> timestamp (mem ?p' y)) (tailq p) =
             sorted_wrt (\<lambda>x y. timestamp (mem p x) \<le> timestamp (mem p y)) (tailq p)"
    by (intro sorted_wrt_cong_set) auto
  moreover have "\<forall>x\<in>set (tailq p). timestamp (mem ?p' x) \<le> timestamp (mem ?p' a)"
    using le same by (simp add: flds(3))
  ultimately show "sorted_wrt (\<lambda>x y. timestamp (mem ?p' x) \<le> timestamp (mem ?p' y)) (tailq ?p')"
    using D(5) by (simp add: flds(2) sorted_wrt_append)
qed


section \<open>What one event does\<close>

lemma step_Call_write:
  assumes "step config MD5 s (Call_write tid blk src0 md5_0 ok) = Some s'"
  shows "\<exists>res p' t'. write_block_enter config MD5 ok (s3b_data s) src0 md5_0 = (res, p') \<and>
           s3b_data s' = p' \<and> clock s' = clock s \<and> history s' = history s \<and>
           threads s' = (threads s)(tid := t') \<and> writing_of t' = None"
  using assms
  by (auto simp: step_def thread_step_def writing_of_def split: if_splits prod.splits sum.splits)

lemma step_Write_pass:
  assumes "step config MD5 s (Write_pass tid now ok tb) = Some s'"
  shows "\<exists>blk src md5 res p'. threads s tid = At_again blk src md5 \<and>
           write_block_again config (s3b_data s) blk src now ok = (res, p') \<and>
           s3b_data s' = p' \<and> clock s' = tb \<and>
           (case res of
              Writeit a \<Rightarrow> threads s' = (threads s)(tid := In_inner_write blk src md5 a) \<and>
                           history s' = history s @ [Write_started blk now]
            | _ \<Rightarrow> history s' = history s \<and>
                   (\<exists>t'. threads s' = (threads s)(tid := t') \<and> writing_of t' = None))"
  using assms
  by (auto simp: step_def thread_step_def writing_of_def
      split: if_splits prod.splits thread.splits again_result.splits)

lemma step_Wakeup:
  assumes "step config MD5 s (Wakeup tid w tw) = Some s'"
  shows "\<exists>site blk src md5 wake tb delay.
           threads s tid = Sleeping site blk src md5 wake tb \<and>
           ec_protect_sleep_until (site = Cache_full) wake tb w tw = Some delay \<and>
           s3b_data s' = add_delay site delay (s3b_data s) \<and> clock s' = tw \<and>
           history s' = history s \<and> threads s' = (threads s)(tid := At_again blk src md5)"
  using assms
  by (auto simp: step_def thread_step_def split: if_splits prod.splits thread.splits option.splits)

lemma step_Inner_write_returns:
  assumes "step config MD5 s (Inner_write_returns tid r now) = Some s'"
  shows "\<exists>blk src md5 a. threads s tid = In_inner_write blk src md5 a \<and>
           s3b_data s' = snd (write_block_finish (s3b_data s) blk a md5 r now) \<and>
           clock s' = now \<and>
           history s' = history s @ [if r = 0 then Write_completed blk now else Write_failed blk] \<and>
           threads s' = (threads s)(tid :=
             Returned (fst (write_block_finish (s3b_data s) blk a md5 r now)) None)"
  using assms
  by (auto simp: step_def thread_step_def split: if_splits prod.splits thread.splits)

lemma step_Call_read:
  assumes "step config MD5 s (Call_read tid blk dest e now) = Some s'"
  shows "\<exists>res p' t'. read_block_locked config (s3b_data s) blk dest e now = (res, p') \<and>
           s3b_data s' = p' \<and> clock s' = now \<and> history s' = history s \<and>
           threads s' = (threads s)(tid := t') \<and> writing_of t' = None"
  using assms
  by (auto simp: step_def thread_step_def writing_of_def
      split: if_splits prod.splits read_result.splits)

lemma step_Inner_read_returns:
  assumes "step config MD5 s (Inner_read_returns tid r dest') = Some s'"
  shows "\<exists>t'. s3b_data s' = s3b_data s \<and> clock s' = clock s \<and> history s' = history s \<and>
           threads s' = (threads s)(tid := t') \<and> writing_of t' = None"
  using assms
  by (auto simp: step_def thread_step_def writing_of_def split: if_splits thread.splits)


section \<open>The size of the hash table\<close>

lemma write_block_enter_frame:
  "write_block_enter config MD5 ok p src md5 = (res, p') \<Longrightarrow>
   hashtable p' = hashtable p \<and> tailq p' = tailq p \<and> mem p' = mem p \<and> live p' = live p \<and>
   next_addr p' = next_addr p"
  by (auto simp: write_block_enter_def count_oom_def split: if_splits option.splits)

lemma read_block_locked_frame:
  "read_block_locked config p blk dest e now = (res, p') \<Longrightarrow>
   hashtable p' = hashtable (ec_protect_scrub_expired_writtens config p now) \<and>
   tailq p' = tailq (ec_protect_scrub_expired_writtens config p now) \<and>
   mem p' = mem p \<and>
   live p' = live (ec_protect_scrub_expired_writtens config p now) \<and>
   next_addr p' = next_addr p"
  by (auto simp: read_block_locked_def Let_def count_hit_def log_err_def scrub_fields(4,7)
      split: if_splits option.splits u_payload.splits)

lemma add_delay_frame:
  "hashtable (add_delay site delay p) = hashtable p \<and> tailq (add_delay site delay p) = tailq p \<and>
   mem (add_delay site delay p) = mem p \<and> live (add_delay site delay p) = live p \<and>
   next_addr (add_delay site delay p) = next_addr p"
  by (cases site) (simp_all add: add_delay_def)

lemma scrub_length: "length (hashtable (ec_protect_scrub_expired_writtens config p now)) \<le> length (hashtable p)"
  by (simp add: scrub_fields(2))

lemma write_block_again_length:
  assumes "write_block_again config p blk src now ok = (res, p')"
      and "length (hashtable p) \<le> cache_size config"
  shows "length (hashtable p') \<le> cache_size config"
  using write_block_again_cases [OF assms(1)] assms(2) scrub_length [of config p now]
  by (auto simp: count_oom_def)

lemma write_block_finish_length:
  "length (hashtable (snd (write_block_finish p blk a md5 r now))) \<le> length (hashtable p)"
  by (simp add: write_block_finish_def free_binfo_def cond_signal_def ec_protect_hash_remove_def
      tailq_insert_tail_def length_delete_le)

lemma step_capacity:
  assumes "step config MD5 s ev = Some s'"
      and "length (hashtable (s3b_data s)) \<le> cache_size config"
  shows "length (hashtable (s3b_data s')) \<le> cache_size config"
proof (cases ev)
  case (Call_write tid blk src0 md5_0 ok)
  with step_Call_write assms write_block_enter_frame show ?thesis by metis
next
  case (Write_pass tid now ok tb)
  with step_Write_pass [of config MD5 s tid now ok tb s'] assms write_block_again_length
  show ?thesis by blast
next
  case (Wakeup tid w tw)
  with step_Wakeup [of config MD5 s tid w tw s'] assms add_delay_frame show ?thesis by auto
next
  case (Inner_write_returns tid r now)
  with step_Inner_write_returns [of config MD5 s tid r now s'] assms
    write_block_finish_length show ?thesis
    by (metis le_trans)
next
  case (Call_read tid blk dest e now)
  with step_Call_read [of config MD5 s tid blk dest e now s'] assms
    read_block_locked_frame scrub_length show ?thesis
    by (metis le_trans)
next
  case (Inner_read_returns tid r dest')
  with step_Inner_read_returns [of config MD5 s tid r dest' s'] assms show ?thesis by auto
qed

lemma run_capacity:
  "run config MD5 s evs = Some s' \<Longrightarrow> length (hashtable (s3b_data s)) \<le> cache_size config \<Longrightarrow>
   length (hashtable (s3b_data s')) \<le> cache_size config"
proof (induction evs arbitrary: s)
  case Nil
  then show ?case by simp
next
  case (Cons ev evs)
  from Cons.prems(1) obtain s1 where s1: "step config MD5 s ev = Some s1"
    "run config MD5 s1 evs = Some s'"
    by (auto split: option.splits)
  from step_capacity [OF s1(1) Cons.prems(2)] Cons.IH [OF s1(2)] show ?case by blast
qed

lemma write_block_again_full:
  assumes "ec_protect_hash_get (ec_protect_scrub_expired_writtens config p now) blk = None"
      and "cache_size config \<le> length (hashtable (ec_protect_scrub_expired_writtens config p now))"
  shows "write_block_again config p blk src now ok =
           (Sleep Cache_full
              (case tailq (ec_protect_scrub_expired_writtens config p now) of
                 [] \<Rightarrow> 0
               | first # _ \<Rightarrow>
                   timestamp (mem (ec_protect_scrub_expired_writtens config p now) first) +
                   cache_time config),
            ec_protect_scrub_expired_writtens config p now)"
  using assms
  by (simp add: write_block_again_def Let_def split: list.splits)


lemmas step_defs = step_def thread_step_def callable_def system_init_def
  two_writes_and_a_call_def third_writer_called_def two_writers_of_block_7_def ec_protect_sleep_until_def add_delay_def

lemma run_two_writes_and_a_call:
  "run scenario_conf stub_md5 system_init two_writes_and_a_call = Some third_writer_called"
  by (simp add: step_defs run_defs scenario_defs fun_eq_iff)


section \<open>Records in flight are left alone\<close>

lemma scrub_keeps_writing:
  assumes inv: "priv_inv p" and found: "ec_protect_hash_get p blk = Some a" and w: "\<not> written p a"
  shows "ec_protect_hash_get (ec_protect_scrub_expired_writtens config p now) blk = Some a \<and>
         \<not> written (ec_protect_scrub_expired_writtens config p now) a"
proof -
  have "blk \<notin> (\<lambda>a. block_num (mem p a)) ` set (scrubbed config now p)"
  proof
    assume "blk \<in> (\<lambda>a. block_num (mem p a)) ` set (scrubbed config now p)"
    then obtain a' where a': "a' \<in> set (scrubbed config now p)" "blk = block_num (mem p a')"
      by auto
    with scrubbed_subset have "a' \<in> set (tailq p)" by blast
    with priv_invD(4) [OF inv] obtain k where k: "(k, a') \<in> set (hashtable p)" "written p a'"
      by blast
    with priv_invD(2) [OF inv] a' have "k = blk" by auto
    with priv_inv_key_addr [OF inv k(1) hash_get_in_table [OF found]] have "a' = a" by simp
    with k w show False by simp
  qed
  with found w show ?thesis
    by (simp add: hash_get_scrub written_def scrub_fields(4))
qed

lemma scrub_tailq:
  "x \<in> set (tailq (ec_protect_scrub_expired_writtens config p now)) \<Longrightarrow> x \<in> set (tailq p)"
  by (auto simp: scrub_fields(1) dest: set_dropWhileD)

lemma priv_inv_count_oom: "priv_inv (count_oom p) = priv_inv p"
  by (simp add: count_oom_def priv_inv_def written_def)

lemma write_block_again_priv_inv:
  assumes inv: "priv_inv p" and ag: "write_block_again config p blk src now ok = (res, p')"
  shows "priv_inv p'"
proof -
  let ?p1 = "ec_protect_scrub_expired_writtens config p now"
  note inv1 = scrub_priv_inv [OF inv, of config now]
  from write_block_again_cases [OF ag]
  consider (quiet) "p' = ?p1 \<or> p' = count_oom ?p1"
    | (new) "ec_protect_hash_get ?p1 blk = None"
        "hashtable p' = hashtable ?p1 @ [(blk, next_addr ?p1)]" "tailq p' = tailq ?p1"
        "mem p' = (mem ?p1)(next_addr ?p1 := \<lparr>block_num = blk, timestamp = 0, payload = U_data src\<rparr>)"
        "live p' = (live ?p1)(next_addr ?p1 := True)" "next_addr p' = Suc (next_addr ?p1)"
    | (again) a where "ec_protect_hash_get ?p1 blk = Some a"
        "hashtable p' = hashtable ?p1" "tailq p' = remove1 a (tailq ?p1)"
        "mem p' = (mem ?p1)(a := (mem ?p1 a)\<lparr>timestamp := 0, payload := U_data src\<rparr>)"
        "live p' = live ?p1" "next_addr p' = next_addr ?p1"
    by (elim disjE exE conjE) blast+
  then show ?thesis
  proof cases
    case quiet
    with inv1 show ?thesis
      by (auto simp: priv_inv_count_oom)
  next
    case new
    from priv_inv_insert [OF inv1 new] show ?thesis .
  next
    case again
    from priv_inv_demote [OF inv1 again] show ?thesis .
  qed
qed

lemma write_block_again_keeps_writing:
  assumes inv: "priv_inv p" and ag: "write_block_again config p blk src now ok = (res, p')"
      and found: "ec_protect_hash_get p b = Some a" and w: "\<not> written p a"
  shows "ec_protect_hash_get p' b = Some a \<and> \<not> written p' a \<and> (b = blk \<longrightarrow> (\<forall>x. res \<noteq> Writeit x))"
proof -
  let ?p1 = "ec_protect_scrub_expired_writtens config p now"
  note inv1 = scrub_priv_inv [OF inv, of config now]
  from scrub_keeps_writing [OF inv found w, of config now]
  have f1: "ec_protect_hash_get ?p1 b = Some a" and w1: "\<not> written ?p1 a" by simp_all
  from priv_invD(2) [OF inv1 hash_get_in_table [OF f1]] have lt: "a < next_addr ?p1" by simp
  from write_block_again_cases [OF ag]
  consider (sleep) "\<exists>site wake. res = Sleep site wake" "p' = ?p1"
    | (oom) "res = Return ENOMEM" "p' = count_oom ?p1"
    | (new) "ec_protect_hash_get ?p1 blk = None"
        "hashtable p' = hashtable ?p1 @ [(blk, next_addr ?p1)]"
        "mem p' = (mem ?p1)(next_addr ?p1 := \<lparr>block_num = blk, timestamp = 0, payload = U_data src\<rparr>)"
    | (again) x where "ec_protect_hash_get ?p1 blk = Some x" "written ?p1 x"
        "hashtable p' = hashtable ?p1"
        "mem p' = (mem ?p1)(x := (mem ?p1 x)\<lparr>timestamp := 0, payload := U_data src\<rparr>)"
    by (elim disjE exE conjE) blast+
  then show ?thesis
  proof cases
    case sleep
    with f1 w1 show ?thesis by auto
  next
    case oom
    with f1 w1 show ?thesis
      by (auto simp: count_oom_def ec_protect_hash_get_def written_def)
  next
    case new
    with f1 have "b \<noteq> blk" by auto
    moreover from f1 new(2) have "ec_protect_hash_get p' b = Some a"
      by (simp add: ec_protect_hash_get_def map_add_Some_iff)
    moreover from w1 lt new(3) have "\<not> written p' a" by (simp add: written_def)
    ultimately show ?thesis by simp
  next
    case again
    with f1 w1 have ne: "b \<noteq> blk" "a \<noteq> x" by auto
    with f1 w1 again show ?thesis
      by (simp add: ec_protect_hash_get_def written_def)
  qed
qed

lemma write_block_again_tailq:
  assumes inv: "priv_inv p" and ag: "write_block_again config p blk src now ok = (res, p')"
      and x: "x \<in> set (tailq p')"
  shows "x \<in> set (tailq p) \<and> timestamp (mem p' x) = timestamp (mem p x)"
proof -
  let ?p1 = "ec_protect_scrub_expired_writtens config p now"
  note inv1 = scrub_priv_inv [OF inv, of config now]
  note D = priv_invD [OF inv1]
  from write_block_again_cases [OF ag]
  consider (quiet) "p' = ?p1 \<or> p' = count_oom ?p1"
    | (new) "tailq p' = tailq ?p1"
        "mem p' = (mem ?p1)(next_addr ?p1 := \<lparr>block_num = blk, timestamp = 0, payload = U_data src\<rparr>)"
    | (again) a where "tailq p' = remove1 a (tailq ?p1)"
        "mem p' = (mem ?p1)(a := (mem ?p1 a)\<lparr>timestamp := 0, payload := U_data src\<rparr>)"
    by (elim disjE exE conjE) blast+
  then show ?thesis
  proof cases
    case quiet
    with x scrub_tailq [of x config p now] show ?thesis
      by (auto simp: count_oom_def scrub_fields(4))
  next
    case new
    with x have x1: "x \<in> set (tailq ?p1)" by simp
    with D(4) [of x] D(2) have "x < next_addr ?p1" by blast
    with new x1 scrub_tailq [of x config p now] show ?thesis
      by (simp add: scrub_fields(4))
  next
    case again
    with x D(3) have "x \<in> set (tailq ?p1)" "x \<noteq> a" by auto
    with again scrub_tailq [of x config p now] show ?thesis
      by (simp add: scrub_fields(4))
  qed
qed

lemma write_block_finish_priv_inv:
  assumes inv: "priv_inv p"
      and found: "ec_protect_hash_get p blk = Some a" and w: "\<not> written p a"
      and ok: "r = 0 \<longrightarrow> now \<noteq> 0 \<and> (\<forall>x\<in>set (tailq p). timestamp (mem p x) \<le> now)"
  shows "priv_inv (snd (write_block_finish p blk a md5 r now))"
proof (cases "r = 0")
  case True
  with ok priv_inv_write_done [OF inv found w, of now md5] show ?thesis
    by (simp add: write_block_finish_def)
next
  case False
  with priv_inv_write_failed [OF inv found w] show ?thesis
    by (simp add: write_block_finish_def)
qed

lemma write_block_finish_other:
  assumes inv: "priv_inv p"
      and found: "ec_protect_hash_get p blk = Some a"
      and other: "ec_protect_hash_get p b = Some a'" "\<not> written p a'" "b \<noteq> blk"
  shows "ec_protect_hash_get (snd (write_block_finish p blk a md5 r now)) b = Some a' \<and>
         \<not> written (snd (write_block_finish p blk a md5 r now)) a'"
proof -
  from priv_inv_key_addr [OF inv hash_get_in_table [OF found] hash_get_in_table [OF other(1)]] other(3)
  have "a' \<noteq> a" by auto
  with other show ?thesis
    by (auto simp: write_block_finish_def free_binfo_def cond_signal_def ec_protect_hash_remove_def
        tailq_insert_tail_def ec_protect_hash_get_def written_def delete_conv')
qed

lemma write_block_finish_tailq:
  assumes inv: "priv_inv p"
      and found: "ec_protect_hash_get p blk = Some a" and w: "\<not> written p a"
      and x: "x \<in> set (tailq (snd (write_block_finish p blk a md5 r now)))"
  shows "x \<in> set (tailq p) \<and>
           timestamp (mem (snd (write_block_finish p blk a md5 r now)) x) = timestamp (mem p x) \<or>
         r = 0 \<and> timestamp (mem (snd (write_block_finish p blk a md5 r now)) x) = now"
proof -
  from w priv_invD(4) [OF inv, of a] have "a \<notin> set (tailq p)" by simp
  with x show ?thesis
    by (auto simp: write_block_finish_def free_binfo_def cond_signal_def ec_protect_hash_remove_def
        tailq_insert_tail_def split: if_splits)
qed

lemma read_block_locked_priv_inv:
  assumes inv: "priv_inv p" and rd: "read_block_locked config p blk dest e now = (res, p')"
  shows "priv_inv p'"
proof -
  from read_block_locked_frame [OF rd]
  have "priv_inv p' = priv_inv (ec_protect_scrub_expired_writtens config p now)"
    by (intro priv_inv_cong) (simp_all add: scrub_fields(4,7))
  with scrub_priv_inv [OF inv] show ?thesis by simp
qed

lemma read_block_locked_keeps_writing:
  assumes inv: "priv_inv p" and rd: "read_block_locked config p blk dest e now = (res, p')"
      and found: "ec_protect_hash_get p b = Some a" and w: "\<not> written p a"
  shows "ec_protect_hash_get p' b = Some a \<and> \<not> written p' a"
  using read_block_locked_frame [OF rd] scrub_keeps_writing [OF inv found w, of config now]
  by (simp add: ec_protect_hash_get_def written_def scrub_fields(4))

lemma read_block_locked_tailq:
  assumes rd: "read_block_locked config p blk dest e now = (res, p')" and x: "x \<in> set (tailq p')"
  shows "x \<in> set (tailq p) \<and> timestamp (mem p' x) = timestamp (mem p x)"
  using read_block_locked_frame [OF rd] x scrub_tailq [of x config p now] by simp


section \<open>The invariant of the whole system\<close>

lemma clock_advances_last: "clock_advances c ts \<Longrightarrow> c \<le> last (c # ts)"
proof (induction ts arbitrary: c)
  case Nil
  then show ?case by simp
next
  case (Cons t ts)
  then have "c \<le> t" "t \<le> last (t # ts)" by auto
  then show ?case by auto
qed

lemma step_clock: "step config MD5 s ev = Some s' \<Longrightarrow> clock s' = last (clock s # event_times ev)"
  by (auto simp: step_def split: option.splits)

lemma writers_inv_update:
  assumes W: "writers_inv s"
    and th: "threads s' = (threads s)(tid := t')"
    and others: "\<And>tid' b a. tid' \<noteq> tid \<Longrightarrow> writing_of (threads s tid') = Some (b, a) \<Longrightarrow>
           ec_protect_hash_get (s3b_data s') b = Some a \<and> \<not> written (s3b_data s') a"
    and self: "\<And>b a. writing_of t' = Some (b, a) \<Longrightarrow>
           ec_protect_hash_get (s3b_data s') b = Some a \<and> \<not> written (s3b_data s') a \<and>
           (\<forall>tid' a'. tid' \<noteq> tid \<longrightarrow> writing_of (threads s tid') \<noteq> Some (b, a'))"
  shows "writers_inv s'"
  unfolding writers_inv_def
proof (rule conjI)
  show "\<forall>x b a. writing_of (threads s' x) = Some (b, a) \<longrightarrow>
          ec_protect_hash_get (s3b_data s') b = Some a \<and> \<not> written (s3b_data s') a"
  proof (intro allI impI)
    fix x b a
    assume "writing_of (threads s' x) = Some (b, a)"
    with th others [of x b a] self [of b a]
    show "ec_protect_hash_get (s3b_data s') b = Some a \<and> \<not> written (s3b_data s') a"
      by (cases "x = tid") auto
  qed
next
  show "\<forall>x y b a a'. writing_of (threads s' x) = Some (b, a) \<and>
          writing_of (threads s' y) = Some (b, a') \<longrightarrow> x = y"
  proof (intro allI impI)
    fix x y b a a'
    assume a: "writing_of (threads s' x) = Some (b, a) \<and> writing_of (threads s' y) = Some (b, a')"
    show "x = y"
    proof (cases "x = tid")
      case True
      with a th self [of b a] show ?thesis by (cases "y = tid") auto
    next
      case False
      show ?thesis
      proof (cases "y = tid")
        case True
        with a th self [of b a'] False show ?thesis by auto
      next
        case yf: False
        with False a th W show ?thesis
          unfolding writers_inv_def by auto
      qed
    qed
  qed
qed

lemma writers_inv_quiet:
  assumes W: "writers_inv s"
    and th: "threads s' = (threads s)(tid := t')" and none: "writing_of t' = None"
    and keep: "\<And>b a. ec_protect_hash_get (s3b_data s) b = Some a \<Longrightarrow> \<not> written (s3b_data s) a \<Longrightarrow>
           ec_protect_hash_get (s3b_data s') b = Some a \<and> \<not> written (s3b_data s') a"
  shows "writers_inv s'"
proof (rule writers_inv_update [OF W th])
  fix tid' b a
  assume "tid' \<noteq> tid" "writing_of (threads s tid') = Some (b, a)"
  with W have "ec_protect_hash_get (s3b_data s) b = Some a \<and> \<not> written (s3b_data s) a"
    unfolding writers_inv_def by blast
  with keep show "ec_protect_hash_get (s3b_data s') b = Some a \<and> \<not> written (s3b_data s') a"
    by blast
next
  fix b a
  assume "writing_of t' = Some (b, a)"
  with none show "ec_protect_hash_get (s3b_data s') b = Some a \<and> \<not> written (s3b_data s') a \<and>
           (\<forall>tid' a'. tid' \<noteq> tid \<longrightarrow> writing_of (threads s tid') \<noteq> Some (b, a'))"
    by simp
qed

lemma clock_inv_step:
  assumes C: "clock_inv s" and le: "clock s \<le> clock s'"
    and tq: "\<And>x. x \<in> set (tailq (s3b_data s')) \<Longrightarrow>
          x \<in> set (tailq (s3b_data s)) \<and>
            timestamp (mem (s3b_data s') x) = timestamp (mem (s3b_data s) x) \<or>
          timestamp (mem (s3b_data s') x) \<le> clock s'"
  shows "clock_inv s'"
  unfolding clock_inv_def list_all_iff
proof
  fix x
  assume "x \<in> set (tailq (s3b_data s'))"
  from tq [OF this] C le show "timestamp (mem (s3b_data s') x) \<le> clock s'"
    unfolding clock_inv_def list_all_iff by auto
qed


lemma step_system_inv:
  assumes inv: "system_inv s" and st: "step config MD5 s ev = Some s'"
      and ck: "clock_advances (clock s) (event_times ev)"
  shows "system_inv s'"
proof -
  from inv have P: "priv_inv (s3b_data s)" and W: "writers_inv s" and C: "clock_inv s"
    by (simp_all add: system_inv_def)
  note cl = step_clock [OF st]
  from clock_advances_last [OF ck] cl have le: "clock s \<le> clock s'" by simp
  show ?thesis
  proof (cases ev)
    case (Call_write tid blk src0 md5_0 ok)
    from step_Call_write [OF st [unfolded Call_write]] obtain res p' t' where
      e: "write_block_enter config MD5 ok (s3b_data s) src0 md5_0 = (res, p')" and
      s': "s3b_data s' = p'" "threads s' = (threads s)(tid := t')" "writing_of t' = None"
      by blast
    note fr = write_block_enter_frame [OF e]
    from fr P s' have "priv_inv (s3b_data s')"
      using priv_inv_cong [of p' "s3b_data s"] by simp
    moreover have "writers_inv s'"
      by (rule writers_inv_quiet [OF W s'(2,3)])
         (simp add: s'(1) fr ec_protect_hash_get_def written_def)
    moreover have "clock_inv s'"
      by (rule clock_inv_step [OF C le]) (simp add: s'(1) fr)
    ultimately show ?thesis by (simp add: system_inv_def)
  next
    case (Write_pass tid now ok tb)
    from step_Write_pass [OF st [unfolded Write_pass]] obtain blk src md5 res p' where
      at: "threads s tid = At_again blk src md5" and
      ag: "write_block_again config (s3b_data s) blk src now ok = (res, p')" and
      s': "s3b_data s' = p'" and
      th: "case res of
              Writeit a \<Rightarrow> threads s' = (threads s)(tid := In_inner_write blk src md5 a) \<and>
                           history s' = history s @ [Write_started blk now]
            | _ \<Rightarrow> history s' = history s \<and>
                   (\<exists>t'. threads s' = (threads s)(tid := t') \<and> writing_of t' = None)"
      by blast
    have pi: "priv_inv (s3b_data s')"
      using write_block_again_priv_inv [OF P ag] s' by simp
    have ci: "clock_inv s'"
      by (rule clock_inv_step [OF C le])
         (use write_block_again_tailq [OF P ag] s' in auto)
    have keep: "ec_protect_hash_get (s3b_data s') b = Some a \<and> \<not> written (s3b_data s') a"
      if "ec_protect_hash_get (s3b_data s) b = Some a" "\<not> written (s3b_data s) a" for b a
      using write_block_again_keeps_writing [OF P ag that] s' by simp
    have wi: "writers_inv s'"
    proof (cases "\<exists>a. res = Writeit a")
      case False
      with th obtain t' where "threads s' = (threads s)(tid := t')" "writing_of t' = None"
        by (cases res) auto
      from writers_inv_quiet [OF W this] keep show ?thesis by blast
    next
      case True
      then obtain a where res: "res = Writeit a" by blast
      with th have th': "threads s' = (threads s)(tid := In_inner_write blk src md5 a)" by simp
      show ?thesis
      proof (rule writers_inv_update [OF W th'])
        fix tid' b x
        assume "tid' \<noteq> tid" "writing_of (threads s tid') = Some (b, x)"
        with W have "ec_protect_hash_get (s3b_data s) b = Some x \<and> \<not> written (s3b_data s) x"
          unfolding writers_inv_def by blast
        with keep show "ec_protect_hash_get (s3b_data s') b = Some x \<and> \<not> written (s3b_data s') x"
          by blast
      next
        fix b x
        assume "writing_of (In_inner_write blk src md5 a) = Some (b, x)"
        then have bx: "b = blk" "x = a" by (simp_all add: writing_of_def)
        from write_block_again_Writeit [OF ag [unfolded res]] s'
        have mine: "ec_protect_hash_get (s3b_data s') blk = Some a \<and> \<not> written (s3b_data s') a"
          by (simp add: written_def)
        have alone: "writing_of (threads s tid') \<noteq> Some (blk, a')" if "tid' \<noteq> tid" for tid' a'
        proof
          assume "writing_of (threads s tid') = Some (blk, a')"
          with W have "ec_protect_hash_get (s3b_data s) blk = Some a'" "\<not> written (s3b_data s) a'"
            unfolding writers_inv_def by blast+
          from write_block_again_keeps_writing [OF P ag this] res show False by simp
        qed
        from mine alone bx
        show "ec_protect_hash_get (s3b_data s') b = Some x \<and> \<not> written (s3b_data s') x \<and>
              (\<forall>tid' a'. tid' \<noteq> tid \<longrightarrow> writing_of (threads s tid') \<noteq> Some (b, a'))"
          by simp
      qed
    qed
    from pi wi ci show ?thesis by (simp add: system_inv_def)
  next
    case (Wakeup tid w tw)
    from step_Wakeup [OF st [unfolded Wakeup]] obtain site blk src md5 delay where
      s': "s3b_data s' = add_delay site delay (s3b_data s)"
          "threads s' = (threads s)(tid := At_again blk src md5)"
      by blast
    note fr = add_delay_frame [of site delay "s3b_data s"]
    have wo: "writing_of (At_again blk src md5) = None" by (simp add: writing_of_def)
    from fr P s' have "priv_inv (s3b_data s')"
      using priv_inv_cong [of "s3b_data s'" "s3b_data s"] by simp
    moreover have "writers_inv s'"
      by (rule writers_inv_quiet [OF W s'(2) wo])
         (simp add: s'(1) fr ec_protect_hash_get_def written_def)
    moreover have "clock_inv s'"
      by (rule clock_inv_step [OF C le]) (simp add: s'(1) fr)
    ultimately show ?thesis by (simp add: system_inv_def)
  next
    case (Inner_write_returns tid r now)
    from step_Inner_write_returns [OF st [unfolded Inner_write_returns]]
    obtain blk src md5 a where
      at: "threads s tid = In_inner_write blk src md5 a" and
      s': "s3b_data s' = snd (write_block_finish (s3b_data s) blk a md5 r now)"
          "threads s' = (threads s)(tid :=
             Returned (fst (write_block_finish (s3b_data s) blk a md5 r now)) None)"
      by blast
    from at have wof: "writing_of (threads s tid) = Some (blk, a)" by (simp add: writing_of_def)
    with W have mine: "ec_protect_hash_get (s3b_data s) blk = Some a" "\<not> written (s3b_data s) a"
      unfolding writers_inv_def by blast+
    from ck Inner_write_returns have now: "clock s \<le> now" "now \<noteq> 0" by simp_all
    from cl Inner_write_returns have cs': "clock s' = now" by simp
    from C now have old: "\<forall>x\<in>set (tailq (s3b_data s)). timestamp (mem (s3b_data s) x) \<le> now"
      unfolding clock_inv_def list_all_iff by auto
    have pi: "priv_inv (s3b_data s')"
      using write_block_finish_priv_inv [OF P mine, of r now md5] now old s' by simp
    have wo: "writing_of (Returned (fst (write_block_finish (s3b_data s) blk a md5 r now)) None) = None"
      by (simp add: writing_of_def)
    have wi: "writers_inv s'"
    proof (rule writers_inv_update [OF W s'(2)])
      fix tid' b x
      assume o: "tid' \<noteq> tid" "writing_of (threads s tid') = Some (b, x)"
      with W have ox: "ec_protect_hash_get (s3b_data s) b = Some x" "\<not> written (s3b_data s) x"
        unfolding writers_inv_def by blast+
      from o wof W have "b \<noteq> blk" unfolding writers_inv_def by blast
      from write_block_finish_other [OF P mine(1) ox this] s'
      show "ec_protect_hash_get (s3b_data s') b = Some x \<and> \<not> written (s3b_data s') x" by simp
    next
      fix b x
      assume "writing_of (Returned (fst (write_block_finish (s3b_data s) blk a md5 r now)) None) =
              Some (b, x)"
      with wo show "ec_protect_hash_get (s3b_data s') b = Some x \<and> \<not> written (s3b_data s') x \<and>
            (\<forall>tid' a'. tid' \<noteq> tid \<longrightarrow> writing_of (threads s tid') \<noteq> Some (b, a'))"
        by simp
    qed
    have ci: "clock_inv s'"
    proof (rule clock_inv_step [OF C le])
      fix x
      assume "x \<in> set (tailq (s3b_data s'))"
      with s' have "x \<in> set (tailq (snd (write_block_finish (s3b_data s) blk a md5 r now)))"
        by simp
      from write_block_finish_tailq [OF P mine this] s' cs'
      show "x \<in> set (tailq (s3b_data s)) \<and>
              timestamp (mem (s3b_data s') x) = timestamp (mem (s3b_data s) x) \<or>
            timestamp (mem (s3b_data s') x) \<le> clock s'"
        by auto
    qed
    from pi wi ci show ?thesis by (simp add: system_inv_def)
  next
    case (Call_read tid blk dest e now)
    from step_Call_read [OF st [unfolded Call_read]] obtain res p' t' where
      rd: "read_block_locked config (s3b_data s) blk dest e now = (res, p')" and
      s': "s3b_data s' = p'" "threads s' = (threads s)(tid := t')" "writing_of t' = None"
      by blast
    have "priv_inv (s3b_data s')"
      using read_block_locked_priv_inv [OF P rd] s' by simp
    moreover have "writers_inv s'"
      by (rule writers_inv_quiet [OF W s'(2,3)])
         (use read_block_locked_keeps_writing [OF P rd] s' in auto)
    moreover have "clock_inv s'"
      by (rule clock_inv_step [OF C le])
         (use read_block_locked_tailq [OF rd] s' in auto)
    ultimately show ?thesis by (simp add: system_inv_def)
  next
    case (Inner_read_returns tid r dest')
    from step_Inner_read_returns [OF st [unfolded Inner_read_returns]] obtain t' where
      s': "s3b_data s' = s3b_data s" "threads s' = (threads s)(tid := t')" "writing_of t' = None"
      by blast
    have "writers_inv s'"
      by (rule writers_inv_quiet [OF W s'(2,3)]) (simp add: s'(1))
    moreover have "clock_inv s'"
      by (rule clock_inv_step [OF C le]) (simp add: s'(1))
    ultimately show ?thesis using P s' by (simp add: system_inv_def)
  qed
qed


lemma run_system_inv:
  "system_inv s \<Longrightarrow> run config MD5 s evs = Some s' \<Longrightarrow> clock_ok (clock s) evs \<Longrightarrow> system_inv s'"
proof (induction evs arbitrary: s)
  case Nil
  then show ?case by simp
next
  case (Cons ev evs)
  from Cons.prems(2) obtain s1 where s1: "step config MD5 s ev = Some s1"
    "run config MD5 s1 evs = Some s'"
    by (auto split: option.splits)
  from Cons.prems(3) have ck: "clock_advances (clock s) (event_times ev)"
    "clock_ok (last (clock s # event_times ev)) evs" by simp_all
  from step_system_inv [OF Cons.prems(1) s1(1) ck(1)] have "system_inv s1" .
  moreover from ck(2) step_clock [OF s1(1)] have "clock_ok (clock s1) evs" by simp
  ultimately show ?case using Cons.IH s1(2) by blast
qed

lemma system_init_inv: "system_inv system_init"
  by (simp add: system_inv_def priv_inv_def writers_inv_def clock_inv_def system_init_def
      ec_protect_create_def writing_of_def written_def)

lemma priv_inv_distinct_addrs:
  assumes "priv_inv p"
  shows "distinct (map snd (hashtable p))"
proof -
  from priv_invD(1) [OF assms] have d: "distinct (hashtable p)"
    by (simp add: distinct_map)
  have "inj_on snd (set (hashtable p))"
  proof (rule inj_onI)
    fix e1 e2
    assume e: "e1 \<in> set (hashtable p)" "e2 \<in> set (hashtable p)" "snd e1 = snd e2"
    obtain k1 a1 k2 a2 where p: "e1 = (k1, a1)" "e2 = (k2, a2)"
      by (cases e1, cases e2) auto
    from priv_inv_key_addr [OF assms, of k1 a1 k2 a2] e p
    have "fst e1 = fst e2" by simp
    with e(3) show "e1 = e2" by (simp add: prod_eq_iff)
  qed
  with d show ?thesis by (simp add: distinct_map)
qed

lemma priv_inv_check_invariants:
  assumes inv: "priv_inv p"
  shows "ec_protect_check_invariants p"
proof -
  note D = priv_invD [OF inv]
  let ?W = "\<lambda>e :: s3b_block_t \<times> addr. timestamp (mem p (snd e)) \<noteq> 0"
  have w: "(\<lambda>(key, binfo). timestamp (mem p binfo) \<noteq> 0) = ?W"
    and nw: "(\<lambda>(key, binfo). timestamp (mem p binfo) = 0) = (\<lambda>e. \<not> ?W e)"
    by (auto simp: fun_eq_iff)
  have one: "list_all (\<lambda>binfo. timestamp (mem p binfo) \<noteq> 0 \<and>
                  ec_protect_hash_get p (block_num (mem p binfo)) = Some binfo) (tailq p)"
    unfolding list_all_iff
  proof
    fix a
    assume "a \<in> set (tailq p)"
    with D(4) [of a] obtain k where k: "(k, a) \<in> set (hashtable p)" "written p a" by blast
    with D(2) [OF k(1)] in_table_hash_get [OF inv k(1)]
    show "timestamp (mem p a) \<noteq> 0 \<and> ec_protect_hash_get p (block_num (mem p a)) = Some a"
      by (simp add: written_def)
  qed
  have "map snd (filter ?W (hashtable p)) = filter (\<lambda>a. timestamp (mem p a) \<noteq> 0) (map snd (hashtable p))"
    by (simp add: filter_map comp_def)
  with priv_inv_distinct_addrs [OF inv]
  have dist: "distinct (map snd (filter ?W (hashtable p)))" by simp
  have "set (map snd (filter ?W (hashtable p))) = set (tailq p)"
    using D(4) by (auto simp: written_def image_iff)
  with dist D(3) have "length (map snd (filter ?W (hashtable p))) = length (tailq p)"
    by (metis distinct_card)
  then have two: "length (filter ?W (hashtable p)) = length (tailq p)" by simp
  have three: "length (filter ?W (hashtable p)) + length (filter (\<lambda>e. \<not> ?W e) (hashtable p)) =
               length (hashtable p)"
    by (rule sum_length_filter_compl)
  from one two three show ?thesis
    unfolding ec_protect_check_invariants_def w nw by simp
qed

lemma two_writes_clock_ok: "clock_ok 0 two_writes_and_a_call"
  by (simp add: two_writes_and_a_call_def)


section \<open>Completed writes and the clock\<close>

lemma scrub_written_cases:
  assumes inv: "priv_inv p" and found: "ec_protect_hash_get p b = Some a"
  shows "ec_protect_hash_get (ec_protect_scrub_expired_writtens config p now) b = Some a \<or>
         expired config now p a"
proof (cases "b \<in> (\<lambda>a. block_num (mem p a)) ` set (scrubbed config now p)")
  case False
  with found show ?thesis by (simp add: hash_get_scrub)
next
  case True
  then obtain a' where a': "a' \<in> set (scrubbed config now p)" "b = block_num (mem p a')"
    by auto
  with scrubbed_subset have "a' \<in> set (tailq p)" by blast
  with priv_invD(4) [OF inv] obtain k where k: "(k, a') \<in> set (hashtable p)" by blast
  with priv_invD(2) [OF inv] a' have "k = b" by auto
  with priv_inv_key_addr [OF inv k hash_get_in_table [OF found]] have "a' = a" by simp
  with a' scrubbed_expired show ?thesis by blast
qed

lemma write_block_again_written_cases:
  assumes inv: "priv_inv p" and ag: "write_block_again config p blk src now ok = (res, p')"
      and found: "ec_protect_hash_get p b = Some a" and w: "written p a"
  shows "expired config now p a \<or>
         (\<forall>x. res \<noteq> Writeit x \<or> b \<noteq> blk) \<and> ec_protect_hash_get p' b = Some a \<and>
           timestamp (mem p' a) = timestamp (mem p a) \<or>
         b = blk \<and> res = Writeit a \<and> \<not> now < timestamp (mem p a) + min_write_delay config"
proof (cases "expired config now p a")
  case True
  then show ?thesis by simp
next
  case False
  let ?p1 = "ec_protect_scrub_expired_writtens config p now"
  note inv1 = scrub_priv_inv [OF inv, of config now]
  from scrub_written_cases [OF inv found, of config now] False
  have f1: "ec_protect_hash_get ?p1 b = Some a" by simp
  from w have w1: "written ?p1 a" by (simp add: written_def scrub_fields(4))
  from priv_invD(2) [OF inv1 hash_get_in_table [OF f1]] have lt: "a < next_addr ?p1" by simp
  from write_block_again_cases [OF ag]
  consider (sleep) "\<exists>site wake. res = Sleep site wake" "p' = ?p1"
    | (oom) "res = Return ENOMEM" "p' = count_oom ?p1"
    | (new) "ec_protect_hash_get ?p1 blk = None"
        "hashtable p' = hashtable ?p1 @ [(blk, next_addr ?p1)]"
        "mem p' = (mem ?p1)(next_addr ?p1 := \<lparr>block_num = blk, timestamp = 0, payload = U_data src\<rparr>)"
    | (again) x where "res = Writeit x" "ec_protect_hash_get ?p1 blk = Some x"
        "\<not> now < timestamp (mem ?p1 x) + min_write_delay config"
        "hashtable p' = hashtable ?p1"
        "mem p' = (mem ?p1)(x := (mem ?p1 x)\<lparr>timestamp := 0, payload := U_data src\<rparr>)"
    by (elim disjE exE conjE) blast+
  then show ?thesis
  proof cases
    case sleep
    with f1 show ?thesis by (auto simp: scrub_fields(4))
  next
    case oom
    with f1 show ?thesis
      by (auto simp: count_oom_def ec_protect_hash_get_def scrub_fields(4))
  next
    case new
    with f1 have "b \<noteq> blk" by auto
    moreover from f1 new(2) have "ec_protect_hash_get p' b = Some a"
      by (simp add: ec_protect_hash_get_def map_add_Some_iff)
    moreover from lt new(3) have "timestamp (mem p' a) = timestamp (mem p a)"
      by (simp add: scrub_fields(4))
    ultimately show ?thesis by simp
  next
    case again
    show ?thesis
    proof (cases "b = blk")
      case True
      with f1 again have "x = a" by simp
      with again True show ?thesis by (simp add: scrub_fields(4))
    next
      case False
      with priv_inv_key_addr [OF inv1 hash_get_in_table [OF f1] hash_get_in_table [OF again(2)]]
      have "a \<noteq> x" by simp
      with f1 again False show ?thesis
        by (simp add: ec_protect_hash_get_def scrub_fields(4))
    qed
  qed
qed

lemma write_block_finish_written_other:
  assumes inv: "priv_inv p"
      and mine: "ec_protect_hash_get p blk = Some a0" "\<not> written p a0"
      and found: "ec_protect_hash_get p b = Some a" and w: "written p a"
  shows "ec_protect_hash_get (snd (write_block_finish p blk a0 md5 r now)) b = Some a \<and>
         timestamp (mem (snd (write_block_finish p blk a0 md5 r now)) a) = timestamp (mem p a)"
proof -
  from mine w have ne: "a \<noteq> a0" by auto
  with priv_inv_key_addr [OF inv hash_get_in_table [OF found] hash_get_in_table [OF mine(1)]]
  have "b \<noteq> blk" by simp
  with ne found show ?thesis
    by (auto simp: write_block_finish_def free_binfo_def cond_signal_def ec_protect_hash_remove_def
        tailq_insert_tail_def ec_protect_hash_get_def delete_conv')
qed

lemma write_block_finish_done:
  assumes "ec_protect_hash_get p blk = Some a0"
  shows "ec_protect_hash_get (snd (write_block_finish p blk a0 md5 0 now)) blk = Some a0 \<and>
         timestamp (mem (snd (write_block_finish p blk a0 md5 0 now)) a0) = now"
  using assms
  by (simp add: write_block_finish_def tailq_insert_tail_def ec_protect_hash_get_def)

lemma expired_delay:
  assumes ex: "expired config now p a" and le: "timestamp (mem p a) \<le> now"
      and nw: "no_wrap config now" and cfg: "min_write_delay config \<le> cache_time config"
  shows "unat (timestamp (mem p a)) + unat (min_write_delay config) \<le> unat now"
proof -
  let ?ts = "timestamp (mem p a)"
  from le have l: "unat ?ts \<le> unat now" by (simp add: word_le_nat_alt)
  with nw have "unat ?ts + unat (cache_time config) < 2 ^ 64" by (simp add: no_wrap_def)
  then have "unat (?ts + cache_time config) = unat ?ts + unat (cache_time config)"
    by (simp add: unat_add_lem [THEN iffD1])
  moreover from ex have "unat (?ts + cache_time config) \<le> unat now"
    by (simp add: expired_def word_le_nat_alt)
  moreover from cfg have "unat (min_write_delay config) \<le> unat (cache_time config)"
    by (simp add: word_le_nat_alt)
  ultimately show ?thesis by linarith
qed

lemma elapsed_delay:
  assumes el: "\<not> now < ts + min_write_delay config" and le: "ts \<le> now"
      and nw: "no_wrap config now"
  shows "unat ts + unat (min_write_delay config) \<le> unat now"
proof -
  from le have l: "unat ts \<le> unat now" by (simp add: word_le_nat_alt)
  with nw have "unat ts + unat (min_write_delay config) < 2 ^ 64" by (simp add: no_wrap_def)
  then have "unat (ts + min_write_delay config) = unat ts + unat (min_write_delay config)"
    by (simp add: unat_add_lem [THEN iffD1])
  moreover from el have "unat (ts + min_write_delay config) \<le> unat now"
    by (simp add: word_le_nat_alt not_less)
  ultimately show ?thesis by linarith
qed

lemma delays_respected_append:
  "delays_respected config (h @ [e]) =
     (delays_respected config h \<and>
      (\<forall>blk ts. Write_completed blk ts \<in> set h \<longrightarrow> starts_after config blk ts e))"
  by (induction h) (auto simp: list_all_iff split: backend_event.splits)


lemma completed_inv_step:
  assumes J: "completed_inv config s" and le: "clock s \<le> clock s'"
    and hist: "\<And>blk ts. Write_completed blk ts \<in> set (history s') \<Longrightarrow>
        Write_completed blk ts \<in> set (history s) \<or>
        (\<exists>a. ec_protect_hash_get (s3b_data s') blk = Some a \<and> ts \<noteq> 0 \<and>
             timestamp (mem (s3b_data s') a) = ts)"
    and keep: "\<And>blk a. ec_protect_hash_get (s3b_data s) blk = Some a \<Longrightarrow>
        written (s3b_data s) a \<Longrightarrow>
        ec_protect_hash_get (s3b_data s') blk = Some a \<and>
          timestamp (mem (s3b_data s') a) = timestamp (mem (s3b_data s) a) \<or>
        unat (timestamp (mem (s3b_data s) a)) + unat (min_write_delay config) \<le> unat (clock s')"
  shows "completed_inv config s'"
  unfolding completed_inv_def
proof (intro allI impI)
  fix blk ts
  assume c: "Write_completed blk ts \<in> set (history s')"
  from le have ule: "unat (clock s) \<le> unat (clock s')" by (simp add: word_le_nat_alt)
  from hist [OF c] show "(\<exists>binfo. ec_protect_hash_get (s3b_data s') blk = Some binfo \<and> ts \<noteq> 0 \<and>
                 timestamp (mem (s3b_data s') binfo) = ts) \<or>
        unat ts + unat (min_write_delay config) \<le> unat (clock s')"
  proof
    assume "Write_completed blk ts \<in> set (history s)"
    with J have "(\<exists>a. ec_protect_hash_get (s3b_data s) blk = Some a \<and> ts \<noteq> 0 \<and>
                 timestamp (mem (s3b_data s) a) = ts) \<or>
        unat ts + unat (min_write_delay config) \<le> unat (clock s)"
      unfolding completed_inv_def by blast
    then show ?thesis
    proof
      assume "\<exists>a. ec_protect_hash_get (s3b_data s) blk = Some a \<and> ts \<noteq> 0 \<and>
                 timestamp (mem (s3b_data s) a) = ts"
      then obtain a where a: "ec_protect_hash_get (s3b_data s) blk = Some a" "ts \<noteq> 0"
        "timestamp (mem (s3b_data s) a) = ts" by blast
      then have "written (s3b_data s) a" by (simp add: written_def)
      from keep [OF a(1) this] a show ?thesis by auto
    next
      assume "unat ts + unat (min_write_delay config) \<le> unat (clock s)"
      with ule show ?thesis by simp
    qed
  next
    assume "\<exists>a. ec_protect_hash_get (s3b_data s') blk = Some a \<and> ts \<noteq> 0 \<and>
             timestamp (mem (s3b_data s') a) = ts"
    then show ?thesis by blast
  qed
qed

lemma written_before_clock:
  assumes S: "system_inv s" and found: "ec_protect_hash_get (s3b_data s) b = Some a"
      and w: "written (s3b_data s) a"
  shows "timestamp (mem (s3b_data s) a) \<le> clock s"
proof -
  from S have P: "priv_inv (s3b_data s)" and C: "clock_inv s" by (simp_all add: system_inv_def)
  from priv_invD(4) [OF P, of a] hash_get_in_table [OF found] w have "a \<in> set (tailq (s3b_data s))"
    by blast
  with C show ?thesis by (simp add: clock_inv_def list_all_iff)
qed


lemma step_delays:
  assumes S: "system_inv s" and J: "completed_inv config s"
      and D: "delays_respected config (history s)"
      and st: "step config MD5 s ev = Some s'"
      and ck: "clock_advances (clock s) (event_times ev)"
      and nw: "list_all (no_wrap config) (event_times ev)"
      and cfg: "min_write_delay config \<le> cache_time config"
  shows "completed_inv config s' \<and> delays_respected config (history s')"
proof -
  from S have P: "priv_inv (s3b_data s)" and W: "writers_inv s"
    by (simp_all add: system_inv_def)
  note cl = step_clock [OF st]
  from clock_advances_last [OF ck] cl have le: "clock s \<le> clock s'" by simp
  show ?thesis
  proof (cases ev)
    case (Call_write tid blk src0 md5_0 ok)
    from step_Call_write [OF st [unfolded Call_write]] obtain res p' where
      e: "write_block_enter config MD5 ok (s3b_data s) src0 md5_0 = (res, p')" and
      s': "s3b_data s' = p'" "history s' = history s"
      by blast
    note fr = write_block_enter_frame [OF e]
    have "completed_inv config s'"
      by (rule completed_inv_step [OF J le])
         (simp_all add: s' fr ec_protect_hash_get_def)
    with D s' show ?thesis by simp
  next
    case (Write_pass tid now ok tb)
    from step_Write_pass [OF st [unfolded Write_pass]] obtain blk src md5 res p' where
      ag: "write_block_again config (s3b_data s) blk src now ok = (res, p')" and
      s': "s3b_data s' = p'" "clock s' = tb" and
      th: "case res of
              Writeit a \<Rightarrow> threads s' = (threads s)(tid := In_inner_write blk src md5 a) \<and>
                           history s' = history s @ [Write_started blk now]
            | _ \<Rightarrow> history s' = history s \<and>
                   (\<exists>t'. threads s' = (threads s)(tid := t') \<and> writing_of t' = None)"
      by blast
    from ck Write_pass have t: "clock s \<le> now" "now \<le> tb" by simp_all
    from nw Write_pass have nwn: "no_wrap config now" by simp
    from t have ut: "unat (clock s) \<le> unat now" "unat now \<le> unat tb"
      by (simp_all add: word_le_nat_alt)
    have hs: "set (history s') = set (history s) \<or>
              set (history s') = insert (Write_started blk now) (set (history s))"
      using th by (cases res) auto
    have due: "unat (timestamp (mem (s3b_data s) a)) + unat (min_write_delay config) \<le> unat now"
      if f: "ec_protect_hash_get (s3b_data s) b = Some a" and w: "written (s3b_data s) a"
        and c: "expired config now (s3b_data s) a \<or>
                \<not> now < timestamp (mem (s3b_data s) a) + min_write_delay config" for b a
    proof -
      from written_before_clock [OF S f w] t have l: "timestamp (mem (s3b_data s) a) \<le> now" by simp
      from c show ?thesis
      proof
        assume "expired config now (s3b_data s) a"
        from expired_delay [OF this l nwn cfg] show ?thesis .
      next
        assume "\<not> now < timestamp (mem (s3b_data s) a) + min_write_delay config"
        from elapsed_delay [OF this l nwn] show ?thesis .
      qed
    qed
    have Jn: "completed_inv config s'"
    proof (rule completed_inv_step [OF J le])
      fix b ts
      assume "Write_completed b ts \<in> set (history s')"
      with hs show "Write_completed b ts \<in> set (history s) \<or>
        (\<exists>a. ec_protect_hash_get (s3b_data s') b = Some a \<and> ts \<noteq> 0 \<and>
             timestamp (mem (s3b_data s') a) = ts)"
        by auto
    next
      fix b a
      assume f: "ec_protect_hash_get (s3b_data s) b = Some a" and w: "written (s3b_data s) a"
      from write_block_again_written_cases [OF P ag f w] due [OF f w] ut s'
      show "ec_protect_hash_get (s3b_data s') b = Some a \<and>
          timestamp (mem (s3b_data s') a) = timestamp (mem (s3b_data s) a) \<or>
        unat (timestamp (mem (s3b_data s) a)) + unat (min_write_delay config) \<le> unat (clock s')"
        by auto
    qed
    have Dn: "delays_respected config (history s')"
    proof (cases "\<exists>a. res = Writeit a")
      case False
      with th have "history s' = history s" by (cases res) auto
      with D show ?thesis by simp
    next
      case True
      then obtain x where res: "res = Writeit x" by blast
      with th have h: "history s' = history s @ [Write_started blk now]" by simp
      have "starts_after config b ts (Write_started blk now)"
        if c: "Write_completed b ts \<in> set (history s)" for b ts
      proof (cases "b = blk")
        case False
        then show ?thesis by (simp add: starts_after_def)
      next
        case True
        from J c have "(\<exists>a. ec_protect_hash_get (s3b_data s) b = Some a \<and> ts \<noteq> 0 \<and>
                 timestamp (mem (s3b_data s) a) = ts) \<or>
            unat ts + unat (min_write_delay config) \<le> unat (clock s)"
          unfolding completed_inv_def by blast
        then have "unat ts + unat (min_write_delay config) \<le> unat now"
        proof
          assume "\<exists>a. ec_protect_hash_get (s3b_data s) b = Some a \<and> ts \<noteq> 0 \<and>
                 timestamp (mem (s3b_data s) a) = ts"
          then obtain a where a: "ec_protect_hash_get (s3b_data s) b = Some a" "ts \<noteq> 0"
            "timestamp (mem (s3b_data s) a) = ts" by blast
          then have w: "written (s3b_data s) a" by (simp add: written_def)
          from write_block_again_written_cases [OF P ag a(1) w] res True
          have "expired config now (s3b_data s) a \<or>
                \<not> now < timestamp (mem (s3b_data s) a) + min_write_delay config"
            by auto
          from due [OF a(1) w this] a(3) show ?thesis by simp
        next
          assume "unat ts + unat (min_write_delay config) \<le> unat (clock s)"
          with ut show ?thesis by simp
        qed
        then show ?thesis by (simp add: starts_after_def)
      qed
      with D h show ?thesis by (simp add: delays_respected_append)
    qed
    from Jn Dn show ?thesis by simp
  next
    case (Wakeup tid w tw)
    from step_Wakeup [OF st [unfolded Wakeup]] obtain site delay where
      s': "s3b_data s' = add_delay site delay (s3b_data s)" "history s' = history s"
      by blast
    note fr = add_delay_frame [of site delay "s3b_data s"]
    have "completed_inv config s'"
      by (rule completed_inv_step [OF J le])
         (simp_all add: s' fr ec_protect_hash_get_def)
    with D s' show ?thesis by simp
  next
    case (Inner_write_returns tid r now)
    from step_Inner_write_returns [OF st [unfolded Inner_write_returns]]
    obtain blk src md5 a0 where
      at: "threads s tid = In_inner_write blk src md5 a0" and
      s': "s3b_data s' = snd (write_block_finish (s3b_data s) blk a0 md5 r now)"
          "history s' = history s @ [if r = 0 then Write_completed blk now else Write_failed blk]"
      by blast
    from at have "writing_of (threads s tid) = Some (blk, a0)" by (simp add: writing_of_def)
    with W have mine: "ec_protect_hash_get (s3b_data s) blk = Some a0" "\<not> written (s3b_data s) a0"
      unfolding writers_inv_def by blast+
    from ck Inner_write_returns have now: "now \<noteq> 0" by simp
    have Jn: "completed_inv config s'"
    proof (rule completed_inv_step [OF J le])
      fix b ts
      assume c: "Write_completed b ts \<in> set (history s')"
      show "Write_completed b ts \<in> set (history s) \<or>
        (\<exists>a. ec_protect_hash_get (s3b_data s') b = Some a \<and> ts \<noteq> 0 \<and>
             timestamp (mem (s3b_data s') a) = ts)"
      proof (cases "Write_completed b ts \<in> set (history s)")
        case True
        then show ?thesis by simp
      next
        case False
        with c s' have "r = 0" "b = blk" "ts = now" by (auto split: if_splits)
        with write_block_finish_done [OF mine(1), of md5 now] s' now show ?thesis by simp
      qed
    next
      fix b a
      assume f: "ec_protect_hash_get (s3b_data s) b = Some a" and w: "written (s3b_data s) a"
      from write_block_finish_written_other [OF P mine f w] s'
      show "ec_protect_hash_get (s3b_data s') b = Some a \<and>
          timestamp (mem (s3b_data s') a) = timestamp (mem (s3b_data s) a) \<or>
        unat (timestamp (mem (s3b_data s) a)) + unat (min_write_delay config) \<le> unat (clock s')"
        by simp
    qed
    have Dn: "delays_respected config (history s')"
      using D s' by (simp add: delays_respected_append starts_after_def)
    from Jn Dn show ?thesis by simp
  next
    case (Call_read tid blk dest e now)
    from step_Call_read [OF st [unfolded Call_read]] obtain res p' where
      rd: "read_block_locked config (s3b_data s) blk dest e now = (res, p')" and
      s': "s3b_data s' = p'" "clock s' = now" "history s' = history s"
      by blast
    note fr = read_block_locked_frame [OF rd]
    from ck Call_read have t: "clock s \<le> now" by simp
    from nw Call_read have nwn: "no_wrap config now" by simp
    have Jn: "completed_inv config s'"
    proof (rule completed_inv_step [OF J le])
      fix b ts
      assume "Write_completed b ts \<in> set (history s')"
      with s' show "Write_completed b ts \<in> set (history s) \<or>
        (\<exists>a. ec_protect_hash_get (s3b_data s') b = Some a \<and> ts \<noteq> 0 \<and>
             timestamp (mem (s3b_data s') a) = ts)"
        by simp
    next
      fix b a
      assume f: "ec_protect_hash_get (s3b_data s) b = Some a" and w: "written (s3b_data s) a"
      from written_before_clock [OF S f w] t have l: "timestamp (mem (s3b_data s) a) \<le> now" by simp
      from scrub_written_cases [OF P f, of config now]
      show "ec_protect_hash_get (s3b_data s') b = Some a \<and>
          timestamp (mem (s3b_data s') a) = timestamp (mem (s3b_data s) a) \<or>
        unat (timestamp (mem (s3b_data s) a)) + unat (min_write_delay config) \<le> unat (clock s')"
      proof
        assume "ec_protect_hash_get (ec_protect_scrub_expired_writtens config (s3b_data s) now) b = Some a"
        with fr s' show ?thesis by (simp add: ec_protect_hash_get_def)
      next
        assume "expired config now (s3b_data s) a"
        from expired_delay [OF this l nwn cfg] s' show ?thesis by simp
      qed
    qed
    with D s' show ?thesis by simp
  next
    case (Inner_read_returns tid r dest')
    from step_Inner_read_returns [OF st [unfolded Inner_read_returns]] have
      s': "s3b_data s' = s3b_data s" "history s' = history s"
      by auto
    have "completed_inv config s'"
      by (rule completed_inv_step [OF J le]) (simp_all add: s')
    with D s' show ?thesis by simp
  qed
qed


lemma run_delays:
  assumes "system_inv s" "completed_inv config s" "delays_respected config (history s)"
      and "run config MD5 s evs = Some s'" "clock_ok (clock s) evs" "clock_no_wrap config evs"
      and cfg: "min_write_delay config \<le> cache_time config"
  shows "system_inv s' \<and> completed_inv config s' \<and> delays_respected config (history s')"
  using assms(1-6)
proof (induction evs arbitrary: s)
  case Nil
  then show ?case by simp
next
  case (Cons ev evs)
  from Cons.prems(4) obtain s1 where s1: "step config MD5 s ev = Some s1"
    "run config MD5 s1 evs = Some s'"
    by (auto split: option.splits)
  from Cons.prems(5) have ck: "clock_advances (clock s) (event_times ev)"
    "clock_ok (last (clock s # event_times ev)) evs" by simp_all
  from Cons.prems(6) have nw: "list_all (no_wrap config) (event_times ev)" "clock_no_wrap config evs"
    by (simp_all add: clock_no_wrap_def)
  from step_system_inv [OF Cons.prems(1) s1(1) ck(1)] have S1: "system_inv s1" .
  from step_delays [OF Cons.prems(1,2,3) s1(1) ck(1) nw(1) cfg]
  have J1: "completed_inv config s1" and D1: "delays_respected config (history s1)" by simp_all
  from ck(2) step_clock [OF s1(1)] have c1: "clock_ok (clock s1) evs" by simp
  from Cons.IH [OF S1 J1 D1 s1(2) c1 nw(2)] show ?case .
qed

lemma pass_after_delay:
  assumes S: "system_inv s"
      and st: "step config MD5 s (Write_pass tid now ok tb) = Some s'"
      and started: "threads s' tid = In_inner_write blk src md5 a"
      and t: "clock s \<le> now" and nwn: "no_wrap config now"
      and cfg: "min_write_delay config \<le> cache_time config"
      and f: "ec_protect_hash_get (s3b_data s) blk = Some binfo"
      and w: "timestamp (mem (s3b_data s) binfo) \<noteq> 0"
  shows "unat (timestamp (mem (s3b_data s) binfo)) + unat (min_write_delay config) \<le> unat now"
proof -
  from S have P: "priv_inv (s3b_data s)" by (simp add: system_inv_def)
  from w have w': "written (s3b_data s) binfo" by (simp add: written_def)
  from step_Write_pass [OF st] obtain blk' src' md5' res p' where
    at: "threads s tid = At_again blk' src' md5'" and
    ag: "write_block_again config (s3b_data s) blk' src' now ok = (res, p')" and
    th: "case res of
            Writeit a \<Rightarrow> threads s' = (threads s)(tid := In_inner_write blk' src' md5' a) \<and>
                         history s' = history s @ [Write_started blk' now]
          | _ \<Rightarrow> history s' = history s \<and>
                 (\<exists>t'. threads s' = (threads s)(tid := t') \<and> writing_of t' = None)"
    by blast
  from th started have res: "res = Writeit a" "blk' = blk"
    by (cases res; auto simp: writing_of_def)+
  from written_before_clock [OF S f w'] t have l: "timestamp (mem (s3b_data s) binfo) \<le> now" by simp
  from write_block_again_written_cases [OF P ag [unfolded res] f w']
  have "expired config now (s3b_data s) binfo \<or>
        \<not> now < timestamp (mem (s3b_data s) binfo) + min_write_delay config"
    by auto
  then show ?thesis
  proof
    assume "expired config now (s3b_data s) binfo"
    from expired_delay [OF this l nwn cfg] show ?thesis .
  next
    assume "\<not> now < timestamp (mem (s3b_data s) binfo) + min_write_delay config"
    from elapsed_delay [OF this l nwn] show ?thesis .
  qed
qed

lemma system_init_completed: "completed_inv config system_init"
  by (simp add: completed_inv_def system_init_def)

lemma two_writers_clock: "clock_ok 0 two_writers_of_block_7 \<and> clock_no_wrap scenario_conf two_writers_of_block_7"
  by (simp add: two_writers_of_block_7_def clock_no_wrap_def no_wrap_def scenario_conf_def)

lemma run_two_writers:
  "\<exists>s. run scenario_conf stub_md5 system_init two_writers_of_block_7 = Some s \<and>
       history s = [Write_started 7 5, Write_completed 7 10, Write_started 7 110,
                    Write_completed 7 120]"
  by (simp add: step_defs run_defs scenario_defs)


section \<open>Writes of a block that is not cached\<close>

lemma write_block_again_absent:
  assumes "ec_protect_hash_get p blk = None"
      and "write_block_again config p blk src now ok = (res, p1)"
  shows "repeated_write_delay (stats p1) = repeated_write_delay (stats p) \<and>
         (case res of
            Sleep site wake \<Rightarrow> site = Cache_full \<and> ec_protect_hash_get p1 blk = None
          | _ \<Rightarrow> True)"
proof -
  from assms(1) have "ec_protect_hash_get (ec_protect_scrub_expired_writtens config p now) blk = None"
    by (simp add: hash_get_scrub)
  with assms(2) show ?thesis
    by (auto simp: write_block_again_def Let_def calloc_binfo_def ec_protect_hash_put_def
          count_oom_def scrub_fields split: list.splits if_splits)
qed

lemma write_block_loop_absent:
  "ec_protect_hash_get p blk = None \<Longrightarrow>
   write_block_loop config p blk src passes = Some (res, p1) \<Longrightarrow>
   repeated_write_delay (stats p1) = repeated_write_delay (stats p)"
proof (induction passes arbitrary: p)
  case Nil
  then show ?case by simp
next
  case (Cons e es)
  obtain r0 p0 where ag:
    "write_block_again config p blk src (pe_current_time e) (pe_calloc_ok e) = (r0, p0)"
    by (cases "write_block_again config p blk src (pe_current_time e) (pe_calloc_ok e)")
  note ab = write_block_again_absent [OF Cons.prems(1) ag]
  show ?case
  proof (cases r0)
    case (Sleep site wake)
    with ab have site: "site = Cache_full" and h0: "ec_protect_hash_get p0 blk = None"
      and st: "repeated_write_delay (stats p0) = repeated_write_delay (stats p)"
      by simp_all
    from Cons.prems(2) ag Sleep obtain delay where
      lp: "write_block_loop config (add_delay site delay p0) blk src es = Some (res, p1)"
      by (auto split: option.splits)
    from h0 have "ec_protect_hash_get (add_delay site delay p0) blk = None"
      by (simp add: ec_protect_hash_get_def add_delay_frame)
    from Cons.IH [OF this lp] site st show ?thesis
      by (simp add: add_delay_def)
  next
    case (Writeit a)
    with Cons.prems(2) ag ab show ?thesis by simp
  next
    case (Return r)
    with Cons.prems(2) ag ab show ?thesis by simp
  qed
qed

lemma write_block_absent:
  assumes "ec_protect_hash_get p blk = None"
      and "ec_protect_write_block config MD5 inner ok passes td (p, be) blk src0 md5_0 =
             Some (st, p2, be2)"
  shows "repeated_write_delay (stats p2) = repeated_write_delay (stats p)"
proof -
  obtain res p0 where en: "write_block_enter config MD5 ok p src0 md5_0 = (res, p0)"
    by (cases "write_block_enter config MD5 ok p src0 md5_0")
  then have s0: "repeated_write_delay (stats p0) = repeated_write_delay (stats p)"
    by (auto simp: write_block_enter_def count_oom_def split: if_splits option.splits)
  from write_block_enter_frame [OF en] assms(1) have h0: "ec_protect_hash_get p0 blk = None"
    by (simp add: ec_protect_hash_get_def)
  show ?thesis
  proof (cases res)
    case (Inl r)
    with assms(2) en s0 show ?thesis by (simp add: ec_protect_write_block_def)
  next
    case (Inr sm)
    obtain src md5 where sm: "sm = (src, md5)" by (cases sm)
    from assms(2) en Inr sm obtain lr p1 where
      lp: "write_block_loop config p0 blk src passes = Some (lr, p1)"
      by (auto simp: ec_protect_write_block_def split: option.splits)
    from write_block_loop_absent [OF h0 lp] s0
    have s1: "repeated_write_delay (stats p1) = repeated_write_delay (stats p)" by simp
    show ?thesis
    proof (cases lr)
      case (Inl r)
      with assms(2) en \<open>res = Inr sm\<close> sm lp s1 show ?thesis
        by (simp add: ec_protect_write_block_def)
    next
      case (Inr a)
      with assms(2) en \<open>res = Inr sm\<close> sm lp s1 show ?thesis
        by (auto simp: ec_protect_write_block_def write_block_finish_def free_binfo_def
              cond_signal_def ec_protect_hash_remove_def tailq_insert_tail_def
            split: prod.splits if_splits)
    qed
  qed
qed

lemma scenario_enter_5:
  "write_block_enter scenario_conf stub_md5 True ec_protect_create (Some [1, 2, 3, 4]) None =
     (Inr (Some [1, 2, 3, 4], 9), ec_protect_create\<lparr>zero_block := Some [0, 0, 0, 0]\<rparr>)"
  by (simp add: run_defs scenario_defs)

lemma scenario_loop_5:
  "write_block_loop scenario_conf (ec_protect_create\<lparr>zero_block := Some [0, 0, 0, 0]\<rparr>) 5
     (Some [1, 2, 3, 4]) [pass_at 5] = Some (Inr 0, block5_writing)"
  by (simp add: run_defs scenario_defs)

section \<open>One writer of a block at a time\<close>

lemma serialized_snoc:
  "serialized fl (h @ [e]) =
     (serialized fl h \<and>
      (case e of Write_started blk t \<Rightarrow> blk \<notin> set (writes_in_flight fl h) | _ \<Rightarrow> True))"
  by (induction fl h rule: serialized.induct) (auto split: backend_event.splits)

lemma writes_in_flight_snoc:
  "writes_in_flight fl (h @ [e]) =
     (case e of
        Write_started blk t \<Rightarrow> blk # writes_in_flight fl h
      | Write_completed blk t \<Rightarrow> removeAll blk (writes_in_flight fl h)
      | Write_failed blk \<Rightarrow> removeAll blk (writes_in_flight fl h))"
  by (induction fl h rule: writes_in_flight.induct) (auto split: backend_event.splits)

lemma step_writers:
  assumes "step config MD5 s ev = Some s'"
  shows "\<exists>tid. (\<forall>tid'. tid' \<noteq> tid \<longrightarrow> threads s' tid' = threads s tid') \<and>
     (case writing_of (threads s tid) of
        None \<Rightarrow>
          (case writing_of (threads s' tid) of
             None \<Rightarrow> history s' = history s
           | Some (blk, a) \<Rightarrow> (\<exists>now. history s' = history s @ [Write_started blk now]))
      | Some (blk, a) \<Rightarrow>
          writing_of (threads s' tid) = None \<and>
          (\<exists>e. history s' = history s @ [e] \<and>
               (e = Write_failed blk \<or> (\<exists>now. e = Write_completed blk now))))"
proof (cases ev)
  case (Call_write tid blk src0 md5_0 ok)
  with assms show ?thesis
    by (intro exI [of _ tid])
       (auto simp: step_def thread_step_def writing_of_def callable_def
          split: if_splits prod.splits sum.splits thread.splits)
next
  case (Write_pass tid now ok tb)
  with assms show ?thesis
    by (intro exI [of _ tid])
       (auto simp: step_def thread_step_def writing_of_def
          split: if_splits prod.splits thread.splits again_result.splits)
next
  case (Wakeup tid w tw)
  with assms show ?thesis
    by (intro exI [of _ tid])
       (auto simp: step_def thread_step_def writing_of_def
          split: if_splits prod.splits thread.splits option.splits)
next
  case (Inner_write_returns tid r now)
  with assms show ?thesis
    by (intro exI [of _ tid])
       (auto simp: step_def thread_step_def writing_of_def
          split: if_splits prod.splits thread.splits)
next
  case (Call_read tid blk dest e now)
  with assms show ?thesis
    by (intro exI [of _ tid])
       (auto simp: step_def thread_step_def writing_of_def callable_def
          split: if_splits prod.splits thread.splits read_result.splits)
next
  case (Inner_read_returns tid r dest')
  with assms show ?thesis
    by (intro exI [of _ tid])
       (auto simp: step_def thread_step_def writing_of_def split: if_splits thread.splits)
qed

lemma step_flight_inv:
  assumes F: "flight_inv s" and W: "writers_inv s" and W': "writers_inv s'"
      and st: "step config MD5 s ev = Some s'"
  shows "flight_inv s'"
proof -
  let ?fl = "writes_in_flight [] (history s)"
  from F have ser: "serialized [] (history s)"
    and fl: "set ?fl = {blk. \<exists>tid binfo. writing_of (threads s tid) = Some (blk, binfo)}"
    by (simp_all add: flight_inv_def)
  from step_writers [OF st] obtain tid where
    oth: "\<And>tid'. tid' \<noteq> tid \<Longrightarrow> threads s' tid' = threads s tid'" and
    cs: "case writing_of (threads s tid) of
        None \<Rightarrow>
          (case writing_of (threads s' tid) of
             None \<Rightarrow> history s' = history s
           | Some (blk, a) \<Rightarrow> (\<exists>now. history s' = history s @ [Write_started blk now]))
      | Some (blk, a) \<Rightarrow>
          writing_of (threads s' tid) = None \<and>
          (\<exists>e. history s' = history s @ [e] \<and>
               (e = Write_failed blk \<or> (\<exists>now. e = Write_completed blk now)))"
    by blast
  show ?thesis
  proof (cases "writing_of (threads s tid)")
    case None
    show ?thesis
    proof (cases "writing_of (threads s' tid)")
      case n: None
      with None cs have h: "history s' = history s" by simp
      have "{blk. \<exists>x binfo. writing_of (threads s' x) = Some (blk, binfo)} =
            {blk. \<exists>x binfo. writing_of (threads s x) = Some (blk, binfo)}"
      proof -
        have "writing_of (threads s' x) = writing_of (threads s x)" for x
          using oth [of x] None n by (cases "x = tid") simp_all
        then show ?thesis by simp
      qed
      with ser fl h show ?thesis by (simp add: flight_inv_def)
    next
      case (Some ba)
      obtain blk a where ba: "ba = (blk, a)" by (cases ba)
      with None Some cs obtain now where h: "history s' = history s @ [Write_started blk now]"
        by auto
      have fresh: "blk \<notin> set ?fl"
      proof
        assume "blk \<in> set ?fl"
        with fl obtain x a' where x: "writing_of (threads s x) = Some (blk, a')" by auto
        with None have "x \<noteq> tid" by auto
        with oth [of x] x have "writing_of (threads s' x) = Some (blk, a')" by simp
        with W' Some ba have "x = tid" unfolding writers_inv_def by blast
        with \<open>x \<noteq> tid\<close> show False by simp
      qed
      have "{b. \<exists>x binfo. writing_of (threads s' x) = Some (b, binfo)} =
            insert blk {b. \<exists>x binfo. writing_of (threads s x) = Some (b, binfo)}"
      proof (intro set_eqI iffI)
        fix b
        assume "b \<in> {b. \<exists>x binfo. writing_of (threads s' x) = Some (b, binfo)}"
        then obtain x a' where x: "writing_of (threads s' x) = Some (b, a')" by auto
        show "b \<in> insert blk {b. \<exists>x binfo. writing_of (threads s x) = Some (b, binfo)}"
        proof (cases "x = tid")
          case True
          with x Some ba show ?thesis by simp
        next
          case False
          with oth [of x] x have "writing_of (threads s x) = Some (b, a')" by simp
          then show ?thesis by blast
        qed
      next
        fix b
        assume b: "b \<in> insert blk {b. \<exists>x binfo. writing_of (threads s x) = Some (b, binfo)}"
        show "b \<in> {b. \<exists>x binfo. writing_of (threads s' x) = Some (b, binfo)}"
        proof (cases "b = blk")
          case True
          with Some ba show ?thesis by auto
        next
          case False
          with b obtain x a' where x: "writing_of (threads s x) = Some (b, a')" by auto
          with None have "x \<noteq> tid" by auto
          with oth [of x] x have "writing_of (threads s' x) = Some (b, a')" by simp
          then show ?thesis by blast
        qed
      qed
      with ser fl h fresh show ?thesis
        by (simp add: flight_inv_def serialized_snoc writes_in_flight_snoc)
    qed
  next
    case (Some ba)
    obtain blk a where ba: "ba = (blk, a)" by (cases ba)
    with Some cs obtain e where n: "writing_of (threads s' tid) = None"
      and h: "history s' = history s @ [e]"
      and e: "e = Write_failed blk \<or> (\<exists>now. e = Write_completed blk now)"
      by auto
    have "{b. \<exists>x binfo. writing_of (threads s' x) = Some (b, binfo)} =
          {b. \<exists>x binfo. writing_of (threads s x) = Some (b, binfo)} - {blk}"
    proof (intro set_eqI iffI)
      fix b
      assume "b \<in> {b. \<exists>x binfo. writing_of (threads s' x) = Some (b, binfo)}"
      then obtain x a' where x: "writing_of (threads s' x) = Some (b, a')" by auto
      with n have xt: "x \<noteq> tid" by auto
      with oth [of x] x have sx: "writing_of (threads s x) = Some (b, a')" by simp
      have "b \<noteq> blk"
      proof
        assume "b = blk"
        with sx Some ba W have "x = tid" unfolding writers_inv_def by blast
        with xt show False by simp
      qed
      with sx show "b \<in> {b. \<exists>x binfo. writing_of (threads s x) = Some (b, binfo)} - {blk}"
        by auto
    next
      fix b
      assume "b \<in> {b. \<exists>x binfo. writing_of (threads s x) = Some (b, binfo)} - {blk}"
      then obtain x a' where x: "writing_of (threads s x) = Some (b, a')" and nb: "b \<noteq> blk"
        by auto
      with Some ba have "x \<noteq> tid" by auto
      with oth [of x] x have "writing_of (threads s' x) = Some (b, a')" by simp
      then show "b \<in> {b. \<exists>x binfo. writing_of (threads s' x) = Some (b, binfo)}"
        by blast
    qed
    with ser fl h e show ?thesis
      by (auto simp: flight_inv_def serialized_snoc writes_in_flight_snoc)
  qed
qed

lemma run_flight_inv:
  "system_inv s \<Longrightarrow> flight_inv s \<Longrightarrow> run config MD5 s evs = Some s' \<Longrightarrow>
   clock_ok (clock s) evs \<Longrightarrow> flight_inv s'"
proof (induction evs arbitrary: s)
  case Nil
  then show ?case by simp
next
  case (Cons ev evs)
  from Cons.prems(3) obtain s1 where s1: "step config MD5 s ev = Some s1"
    "run config MD5 s1 evs = Some s'"
    by (auto split: option.splits)
  from Cons.prems(4) have ck: "clock_advances (clock s) (event_times ev)"
    "clock_ok (last (clock s # event_times ev)) evs" by simp_all
  from step_system_inv [OF Cons.prems(1) s1(1) ck(1)] have S1: "system_inv s1" .
  from Cons.prems(1) S1 have "writers_inv s" "writers_inv s1" by (simp_all add: system_inv_def)
  from step_flight_inv [OF Cons.prems(2) this s1(1)] have F1: "flight_inv s1" .
  from ck(2) step_clock [OF s1(1)] have c1: "clock_ok (clock s1) evs" by simp
  from Cons.IH [OF S1 F1 s1(2) c1] show ?case .
qed

lemma system_init_flight: "flight_inv system_init"
  by (simp add: flight_inv_def system_init_def writing_of_def)

lemma pass_not_in_flight:
  assumes S: "system_inv s"
      and st: "step config MD5 s (Write_pass tid now ok tb) = Some s'"
      and started: "threads s' tid = In_inner_write blk src md5 a"
  shows "threads s tid' \<noteq> In_inner_write blk src' md5' a'"
proof
  assume w: "threads s tid' = In_inner_write blk src' md5' a'"
  from S have P: "priv_inv (s3b_data s)" and W: "writers_inv s" by (simp_all add: system_inv_def)
  from w have "writing_of (threads s tid') = Some (blk, a')" by (simp add: writing_of_def)
  with W have f: "ec_protect_hash_get (s3b_data s) blk = Some a'" "\<not> written (s3b_data s) a'"
    unfolding writers_inv_def by blast+
  from step_Write_pass [OF st] obtain blk' src0 md50 res p' where
    at: "threads s tid = At_again blk' src0 md50" and
    ag: "write_block_again config (s3b_data s) blk' src0 now ok = (res, p')" and
    th: "case res of
            Writeit a \<Rightarrow> threads s' = (threads s)(tid := In_inner_write blk' src0 md50 a) \<and>
                         history s' = history s @ [Write_started blk' now]
          | _ \<Rightarrow> history s' = history s \<and>
                 (\<exists>t'. threads s' = (threads s)(tid := t') \<and> writing_of t' = None)"
    by blast
  from th started have res: "res = Writeit a" "blk' = blk"
    by (cases res; auto simp: writing_of_def)+
  from write_block_again_keeps_writing [OF P ag f] res show False by simp
qed

lemma overlap_not_serialized:
  "\<not> serialized [] [Write_started 7 5, Write_started 7 6, Write_completed 7 10,
                      Write_completed 7 11]"
  by simp

section \<open>The zero block\<close>

text \<open>
  C3. With the zero block as \<^verbatim>\<open>calloc\<close> left it, a write of \<^verbatim>\<open>block_size\<close> zero bytes and a
  write of a null source are the same computation, whatever digest the caller passes and
  whatever the MD5 function is (none is computed): both continue with a null source and
  the zero digest. After such a write has succeeded, every read that still finds the
  record zeroes the destination, counts a data hit and returns 0 with the inner store
  untouched; and so does every read that finds a record in the zero representation,
  WRITING with a null source or WRITTEN with the zero digest.
\<close>

theorem zero_block_law:
  assumes zb: "zero_block_ok config priv"
  shows "ec_protect_write_block config MD5 inner calloc_ok passes time_done (priv, be) blk
           (Some (replicate (block_size config) 0)) md5 =
         ec_protect_write_block config MD5' inner calloc_ok passes time_done (priv, be) blk
           None md5' \<and>
         (\<forall>sm p0. write_block_enter config MD5 calloc_ok priv
                     (Some (replicate (block_size config) 0)) md5 = (Inr sm, p0) \<longrightarrow>
                   sm = (None, zero_md5)) \<and>
         (\<forall>priv' be' now dest expect_md5 (inner' :: 'r s3backer_store) be2.
            ec_protect_write_block config MD5' inner calloc_ok passes time_done (priv, be) blk
              None md5' = Some (0, priv', be') \<and> time_done \<noteq> 0 \<and>
            ec_protect_hash_get (ec_protect_scrub_expired_writtens config priv' now) blk \<noteq> None \<longrightarrow>
            (\<exists>priv''. ec_protect_read_block config inner' now (priv', be2) blk dest expect_md5 =
                         Some ((0, memset_zero dest (block_size config)), priv'', be2) \<and>
                       cache_data_hits (stats priv'') = cache_data_hits (stats priv') + 1)) \<and>
         (\<forall>p now binfo dest expect_md5 (inner' :: 'r s3backer_store) be2.
            ec_protect_hash_get (ec_protect_scrub_expired_writtens config p now) blk = Some binfo \<and>
            (timestamp (mem p binfo) = 0 \<and> payload (mem p binfo) = U_data None \<or>
             timestamp (mem p binfo) \<noteq> 0 \<and> payload (mem p binfo) = U_md5 zero_md5) \<longrightarrow>
            (\<exists>p'. ec_protect_read_block config inner' now (p, be2) blk dest expect_md5 =
                     Some ((0, memset_zero dest (block_size config)), p', be2) \<and>
                   cache_data_hits (stats p') = cache_data_hits (stats p) + 1))"
proof (intro conjI allI impI)
  show "ec_protect_write_block config MD5 inner calloc_ok passes time_done (priv, be) blk
           (Some (replicate (block_size config) 0)) md5 =
         ec_protect_write_block config MD5' inner calloc_ok passes time_done (priv, be) blk
           None md5'"
    by (simp add: ec_protect_write_block_def write_zero_same [OF zb, of MD5 calloc_ok md5 MD5' md5'])
next
  fix sm p0
  assume "write_block_enter config MD5 calloc_ok priv
            (Some (replicate (block_size config) 0)) md5 = (Inr sm, p0)"
  from write_block_enter_Inr [OF zb this] show "sm = (None, zero_md5)"
    by (simp add: write_block_source_zero)
next
  fix priv' be' now dest expect_md5 and inner' :: "'r s3backer_store" and be2
  assume a: "ec_protect_write_block config MD5' inner calloc_ok passes time_done (priv, be) blk
              None md5' = Some (0, priv', be') \<and> time_done \<noteq> 0 \<and>
            ec_protect_hash_get (ec_protect_scrub_expired_writtens config priv' now) blk \<noteq> None"
  from write_block_success [of config MD5' inner calloc_ok passes time_done priv be blk None md5' priv' be'] a
  obtain s m p0 binfo where
    e: "write_block_enter config MD5' calloc_ok priv None md5' = (Inr (s, m), p0)" and
    rec: "ec_protect_hash_get priv' blk = Some binfo" "timestamp (mem priv' binfo) = time_done"
         "payload (mem priv' binfo) = U_md5 m"
    by blast
  from write_block_enter_Inr [OF zb e] have m: "m = zero_md5"
    by (simp add: write_block_source_def)
  from a hash_get_scrub_cases [of config priv' now blk] rec
  have "ec_protect_hash_get (ec_protect_scrub_expired_writtens config priv' now) blk = Some binfo"
    by auto
  from read_zero_representation [OF this, of inner' be2 dest expect_md5] rec m a
  show "\<exists>priv''. ec_protect_read_block config inner' now (priv', be2) blk dest expect_md5 =
                         Some ((0, memset_zero dest (block_size config)), priv'', be2) \<and>
                       cache_data_hits (stats priv'') = cache_data_hits (stats priv') + 1"
    by auto
next
  fix p now binfo dest expect_md5 and inner' :: "'r s3backer_store" and be2
  assume "ec_protect_hash_get (ec_protect_scrub_expired_writtens config p now) blk = Some binfo \<and>
            (timestamp (mem p binfo) = 0 \<and> payload (mem p binfo) = U_data None \<or>
             timestamp (mem p binfo) \<noteq> 0 \<and> payload (mem p binfo) = U_md5 zero_md5)"
  then show "\<exists>p'. ec_protect_read_block config inner' now (p, be2) blk dest expect_md5 =
                     Some ((0, memset_zero dest (block_size config)), p', be2) \<and>
                   cache_data_hits (stats p') = cache_data_hits (stats p) + 1"
    using read_zero_representation [of config p now blk binfo inner' be2 dest expect_md5] by blast
qed


theorem zero_block_law_witness:
  "ec_protect_write_block scenario_conf stub_md5 counting_store True [pass_at 5] 10
     (ec_protect_create, 0) 7 (Some [0, 0, 0, 0]) None = Some (0, block7_written 0, 0) \<and>
   ec_protect_write_block scenario_conf (\<lambda>_. 3) counting_store True [pass_at 5] 10
     (ec_protect_create, 0) 7 None (Some 5) = Some (0, block7_written 0, 0) \<and>
   (\<exists>p'. ec_protect_read_block scenario_conf counting_store 50 (block7_written 0, 0) 7
            [9, 9, 9, 9] None = Some ((0, [0, 0, 0, 0]), p', 0) \<and>
          cache_data_hits (stats p') = 1)"
proof -
  have zb: "zero_block_ok scenario_conf ec_protect_create"
    by (simp add: zero_block_ok_def ec_protect_create_def)
  note t = zero_block_law [OF zb, where ?MD5.0 = stub_md5 and MD5' = "\<lambda>_. 3" and inner = counting_store
      and calloc_ok = True and passes = "[pass_at 5]" and time_done = 10 and be = 0 and blk = 7
      and ?md5.0 = None and md5' = "Some 5"]
  have cached: "ec_protect_hash_get
      (ec_protect_scrub_expired_writtens scenario_conf (block7_written 0) 50) 7 \<noteq> None"
    by (simp add: run_defs scenario_defs)
  have w: "ec_protect_write_block scenario_conf stub_md5 counting_store True [pass_at 5] 10
     (ec_protect_create, 0) 7 (Some [0, 0, 0, 0]) None = Some (0, block7_written 0, 0)"
    using t [THEN conjunct1] scenario_write_null by (simp add: scenario_defs)
  have "\<exists>p'. ec_protect_read_block scenario_conf counting_store 50 (block7_written 0, 0) 7
            [9, 9, 9, 9] None = Some ((0, memset_zero [9, 9, 9, 9] (block_size scenario_conf)), p', 0) \<and>
          cache_data_hits (stats p') = cache_data_hits (stats (block7_written 0)) + 1"
    using t [THEN conjunct2, THEN conjunct2, THEN conjunct1, rule_format,
        where priv' = "block7_written 0" and be' = 0 and now = 50 and inner' = counting_store
          and dest = "[9, 9, 9, 9]" and ?expect_md5.0 = None and ?be2.0 = 0]
      scenario_write_null cached by simp
  then have "\<exists>p'. ec_protect_read_block scenario_conf counting_store 50 (block7_written 0, 0) 7
            [9, 9, 9, 9] None = Some ((0, [0, 0, 0, 0]), p', 0) \<and>
          cache_data_hits (stats p') = 1"
    by (simp add: memset_zero_def scenario_defs)
  with w scenario_write_null show ?thesis by simp
qed


section \<open>Write, then read\<close>

text \<open>
  C1. Over the faithful inner store, with the zero block as \<^verbatim>\<open>calloc\<close> left it and a clock
  that does not read zero when the write completes: when a write of a block-sized buffer
  S, with no digest or with the MD5 of S as its digest, has returned 0, the read of the
  same block that follows returns 0 and the first \<^verbatim>\<open>block_size\<close> bytes of the destination
  are S, whatever the time of the read (from the cache or past it), for a reader that
  expects no digest or the MD5 of S. The MD5 of a block that is not all zeros is not the
  zero digest.
\<close>

theorem write_read_round_trip:
  assumes zb: "zero_block_ok config priv"
      and len: "length S = block_size config"
      and given: "md5 = None \<or> md5 = Some (MD5 S)"
      and hash: "S \<noteq> replicate (block_size config) 0 \<longrightarrow> MD5 S \<noteq> zero_md5"
      and wr: "ec_protect_write_block config MD5 (faithful_store config MD5) calloc_ok passes
                 time_done (priv, be) blk (Some S) md5 = Some (0, priv', be')"
      and td: "time_done \<noteq> 0"
      and expect: "expect_md5 = None \<or> expect_md5 = Some (MD5 S)"
  shows "\<exists>dest' be''.
           write_then_read config MD5 (faithful_store config MD5) calloc_ok passes time_done now
             (priv, be) blk (Some S) md5 dest expect_md5 = Some (0, (0, dest'), be'') \<and>
           take (block_size config) dest' = S"
proof -
  let ?n = "block_size config"
  from write_block_success [OF wr] obtain s m p0 a where
    e: "write_block_enter config MD5 calloc_ok priv (Some S) md5 = (Inr (s, m), p0)" and
    iw: "write_block (faithful_store config MD5) be blk s m = (0, be')" and
    rec: "ec_protect_hash_get priv' blk = Some a" "timestamp (mem priv' a) = time_done"
         "payload (mem priv' a) = U_md5 m"
    by blast
  note sm = write_block_enter_Inr [OF zb e]
  have stored: "be' blk = S \<and> (m = zero_md5 \<or> m = MD5 S) \<and>
                (m = zero_md5 \<longrightarrow> S = replicate ?n 0)"
  proof (cases "S = replicate ?n 0")
    case True
    then have "take ?n S = replicate ?n 0" by simp
    from sm write_block_source_zero [OF this] have "s = None" "m = zero_md5" by simp_all
    with iw True show ?thesis by (auto simp: faithful_store_def)
  next
    case False
    with len have nz: "take ?n S \<noteq> replicate ?n 0" by simp
    from sm write_block_source_nonzero [OF nz] len
    have "s = Some S" "m = (case md5 of None \<Rightarrow> MD5 S | Some m \<Rightarrow> m)"
      by (simp_all split: option.splits)
    with iw len given hash False show ?thesis by (auto simp: faithful_store_def)
  qed
  have rd: "\<exists>dest' p'' be''. ec_protect_read_block config (faithful_store config MD5) now
              (priv', be') blk dest expect_md5 = Some ((0, dest'), p'', be'') \<and> take ?n dest' = S"
  proof (cases "ec_protect_hash_get (ec_protect_scrub_expired_writtens config priv' now) blk")
    case None
    from read_block_locked_miss [OF None] stored len expect show ?thesis
      by (auto simp: ec_protect_read_block_def faithful_store_def take_memcpy)
  next
    case (Some a')
    with hash_get_scrub_cases [of config priv' now blk] rec have hit:
      "ec_protect_hash_get (ec_protect_scrub_expired_writtens config priv' now) blk = Some a"
      by auto
    from rec td have ts: "timestamp (mem priv' a) \<noteq> 0" by simp
    show ?thesis
    proof (cases "m = zero_md5")
      case True
      with stored have "S = replicate ?n 0" by simp
      with read_block_locked_written [OF hit ts rec(3)] True show ?thesis
        by (simp add: ec_protect_read_block_def take_memset_zero)
    next
      case False
      with stored have "m = MD5 S" by simp
      with False read_block_locked_written [OF hit ts rec(3)] stored len show ?thesis
        by (simp add: ec_protect_read_block_def faithful_store_def take_memcpy)
    qed
  qed
  with wr show ?thesis
    by (auto simp: write_then_read_def)
qed

lemma sum_md5_1234: "sum_md5 [1, 2, 3, 4] = 11"
  by (simp add: sum_md5_def)

lemma scenario_write_faithful:
  "ec_protect_write_block scenario_conf sum_md5 (faithful_store scenario_conf sum_md5) True
     [pass_at 5] 10 (ec_protect_create, empty_store) 7 (Some [1, 2, 3, 4]) None =
   Some (0, block7_written 11, empty_store(7 := [1, 2, 3, 4]))"
  by (simp add: run_defs scenario_defs sum_md5_1234)

theorem write_read_round_trip_witness:
  "\<exists>dest' be''.
     write_then_read scenario_conf sum_md5 (faithful_store scenario_conf sum_md5) True [pass_at 5]
       10 50 (ec_protect_create, empty_store) 7 (Some [1, 2, 3, 4]) None [9, 9, 9, 9] None =
       Some (0, (0, dest'), be'') \<and>
     take 4 dest' = [1, 2, 3, 4]"
proof -
  have zb: "zero_block_ok scenario_conf ec_protect_create"
    by (simp add: zero_block_ok_def ec_protect_create_def)
  have len: "length [1, 2, 3, 4 :: byte] = block_size scenario_conf"
    by (simp add: scenario_conf_def)
  have given: "(None :: md5_t option) = None \<or> None = Some (sum_md5 [1, 2, 3, 4])" by simp
  have hash: "[1, 2, 3, 4 :: byte] \<noteq> replicate (block_size scenario_conf) 0 \<longrightarrow>
              sum_md5 [1, 2, 3, 4] \<noteq> zero_md5"
    by (simp add: sum_md5_1234 zero_md5_def)
  have td: "(10 :: uint64_t) \<noteq> 0" by simp
  from write_read_round_trip [OF zb len given hash scenario_write_faithful td given,
      of 50 "[9, 9, 9, 9]"]
  show ?thesis by (simp add: scenario_conf_def)
qed

text \<open>
  The digest of the write has to be the block's own. Written with the digest 5, which is
  not the digest 11 of [1, 2, 3, 4], the block is stored by the faithful inner store, and
  the read that follows from the cache gets the mismatch error of the inner read, which
  was asked to expect 5.
\<close>

lemma round_trip_with_foreign_digest:
  "write_then_read scenario_conf sum_md5 (faithful_store scenario_conf sum_md5) True [pass_at 5]
     10 50 (ec_protect_create, empty_store) 7 (Some [1, 2, 3, 4]) (Some 5) [9, 9, 9, 9] None =
   Some (0, (EIO, [9, 9, 9, 9]), empty_store(7 := [1, 2, 3, 4]))"
  by (simp add: run_defs scenario_defs sum_md5_1234)

section \<open>The minimum delay between writes of a block\<close>

text \<open>
  C2. With \<^verbatim>\<open>cache_time\<close> at least \<^verbatim>\<open>min_write_delay\<close>, under a clock that never goes back,
  never reads zero and does not wrap, in every history of any schedule of any threads:
  each backend write of a block that is started after a successful write of the same
  block has completed is started at least \<^verbatim>\<open>min_write_delay\<close> milliseconds after that
  completion; and the backend writes of a block are strictly serialized: none is started
  while another one is in flight, and no two threads are inside the inner write of the
  same block. Equivalently on the state: a pass at time t reaches the backend write of a
  block only when no thread is inside the inner write of that block, and never when the
  block's record has a timestamp ts other than zero unless \<^verbatim>\<open>ts + min_write_delay <= t\<close>.
\<close>

theorem min_write_delay_respected:
  assumes run: "run config MD5 system_init evs = Some s"
      and clock: "clock_ok 0 evs" "clock_no_wrap config evs"
      and cfg: "min_write_delay config \<le> cache_time config"
  shows "delays_respected config (history s) \<and> serialized [] (history s) \<and>
         (\<forall>tid tid' blk src md5 a src' md5' a'.
            threads s tid = In_inner_write blk src md5 a \<and>
            threads s tid' = In_inner_write blk src' md5' a' \<longrightarrow> tid = tid') \<and>
         (\<forall>tid now ok tb s' blk src md5 a.
            step config MD5 s (Write_pass tid now ok tb) = Some s' \<and>
            threads s' tid = In_inner_write blk src md5 a \<longrightarrow>
            (\<forall>tid' src' md5' a'. threads s tid' \<noteq> In_inner_write blk src' md5' a') \<and>
            (\<forall>binfo.
               clock s \<le> now \<and> no_wrap config now \<and>
               ec_protect_hash_get (s3b_data s) blk = Some binfo \<and>
               timestamp (mem (s3b_data s) binfo) \<noteq> 0 \<longrightarrow>
               unat (timestamp (mem (s3b_data s) binfo)) + unat (min_write_delay config) \<le>
                 unat now))"
proof -
  have h0: "delays_respected config (history system_init)" by (simp add: system_init_def)
  from clock(1) have c0: "clock_ok (clock system_init) evs" by (simp add: system_init_def)
  from run_delays [OF system_init_inv system_init_completed h0 run c0 clock(2) cfg]
  have S: "system_inv s" and D: "delays_respected config (history s)" by simp_all
  from run_flight_inv [OF system_init_inv system_init_flight run c0]
  have F: "serialized [] (history s)" by (simp add: flight_inv_def)
  from S have W: "writers_inv s" by (simp add: system_inv_def)
  have one: "tid = tid'"
    if "threads s tid = In_inner_write blk src md5 a \<and>
        threads s tid' = In_inner_write blk src' md5' a'"
    for tid tid' blk src md5 a src' md5' a'
  proof -
    from that have "writing_of (threads s tid) = Some (blk, a)"
      "writing_of (threads s tid') = Some (blk, a')"
      by (simp_all add: writing_of_def)
    with W show ?thesis unfolding writers_inv_def by blast
  qed
  have pass: "(\<forall>tid' src' md5' a'. threads s tid' \<noteq> In_inner_write blk src' md5' a') \<and>
            (\<forall>binfo.
               clock s \<le> now \<and> no_wrap config now \<and>
               ec_protect_hash_get (s3b_data s) blk = Some binfo \<and>
               timestamp (mem (s3b_data s) binfo) \<noteq> 0 \<longrightarrow>
               unat (timestamp (mem (s3b_data s) binfo)) + unat (min_write_delay config) \<le>
                 unat now)"
    if st: "step config MD5 s (Write_pass tid now ok tb) = Some s' \<and>
            threads s' tid = In_inner_write blk src md5 a"
    for tid now ok tb s' blk src md5 a
  proof (intro conjI allI impI)
    fix tid' src' md5' a'
    from st show "threads s tid' \<noteq> In_inner_write blk src' md5' a'"
      using pass_not_in_flight [OF S] by blast
  next
    fix binfo
    assume "clock s \<le> now \<and> no_wrap config now \<and>
            ec_protect_hash_get (s3b_data s) blk = Some binfo \<and>
            timestamp (mem (s3b_data s) binfo) \<noteq> 0"
    with st pass_after_delay [OF S _ _ _ _ cfg]
    show "unat (timestamp (mem (s3b_data s) binfo)) + unat (min_write_delay config) \<le> unat now"
      by blast
  qed
  from D F one pass show ?thesis by blast
qed

theorem min_write_delay_respected_witness:
  "\<exists>s. run scenario_conf stub_md5 system_init two_writers_of_block_7 = Some s \<and>
       history s = [Write_started 7 5, Write_completed 7 10, Write_started 7 110,
                    Write_completed 7 120] \<and>
       delays_respected scenario_conf (history s) \<and> serialized [] (history s)"
proof -
  from run_two_writers obtain s where s:
    "run scenario_conf stub_md5 system_init two_writers_of_block_7 = Some s"
    "history s = [Write_started 7 5, Write_completed 7 10, Write_started 7 110,
                  Write_completed 7 120]"
    by blast
  have cfg: "min_write_delay scenario_conf \<le> cache_time scenario_conf"
    by (simp add: scenario_conf_def)
  note t = min_write_delay_respected [OF s(1) two_writers_clock [THEN conjunct1]
      two_writers_clock [THEN conjunct2] cfg]
  from t have d: "delays_respected scenario_conf (history s)" by (rule conjunct1)
  from t have f: "serialized [] (history s)" by (elim conjE)
  from s d f show ?thesis by blast
qed

section \<open>The capacity bound\<close>

text \<open>
  C4. In every state reached from the initial state, by any schedule of any threads, the
  hash table holds at most \<^verbatim>\<open>cache_size\<close> records. A writer whose pass finds its block
  absent and the table full inserts nothing: the pass ends with the scrubbed state and the
  writer waiting on the capacity condition, until the head of the list expires or without
  deadline when the list is empty; whenever it wakes up it is back at \<^verbatim>\<open>again:\<close>, the table
  unchanged, to check again.
\<close>

theorem capacity_bound:
  assumes "run config MD5 system_init evs = Some s"
  shows "length (hashtable (s3b_data s)) \<le> cache_size config \<and>
         (\<forall>tid blk src md5 now ok tb.
            threads s tid = At_again blk src md5 \<and>
            ec_protect_hash_get (ec_protect_scrub_expired_writtens config (s3b_data s) now) blk = None \<and>
            cache_size config \<le>
              length (hashtable (ec_protect_scrub_expired_writtens config (s3b_data s) now)) \<longrightarrow>
            (\<exists>s'. step config MD5 s (Write_pass tid now ok tb) = Some s' \<and>
                  s3b_data s' = ec_protect_scrub_expired_writtens config (s3b_data s) now \<and>
                  threads s' tid =
                    Sleeping Cache_full blk src md5
                      (case tailq (s3b_data s') of
                         [] \<Rightarrow> 0
                       | first # _ \<Rightarrow> timestamp (mem (s3b_data s') first) + cache_time config)
                      tb \<and>
                  (\<forall>w tw. \<exists>s''. step config MD5 s' (Wakeup tid w tw) = Some s'' \<and>
                             threads s'' tid = At_again blk src md5 \<and>
                             hashtable (s3b_data s'') = hashtable (s3b_data s'))))"
proof (intro conjI allI impI)
  show "length (hashtable (s3b_data s)) \<le> cache_size config"
    using run_capacity [OF assms] by (simp add: system_init_def ec_protect_create_def)
next
  fix tid blk src md5 now ok tb
  assume a: "threads s tid = At_again blk src md5 \<and>
            ec_protect_hash_get (ec_protect_scrub_expired_writtens config (s3b_data s) now) blk = None \<and>
            cache_size config \<le>
              length (hashtable (ec_protect_scrub_expired_writtens config (s3b_data s) now))"
  let ?p1 = "ec_protect_scrub_expired_writtens config (s3b_data s) now"
  let ?wake = "case tailq ?p1 of [] \<Rightarrow> 0 | first # _ \<Rightarrow> timestamp (mem ?p1 first) + cache_time config"
  let ?s' = "s\<lparr>s3b_data := ?p1,
               threads := (threads s)(tid := Sleeping Cache_full blk src md5 ?wake tb),
               clock := tb\<rparr>"
  from a have ag: "write_block_again config (s3b_data s) blk src now ok = (Sleep Cache_full ?wake, ?p1)"
    by (simp add: write_block_again_full)
  have st: "step config MD5 s (Write_pass tid now ok tb) = Some ?s'"
    using a ag by (simp add: step_def thread_step_def)
  have wk: "\<exists>s''. step config MD5 ?s' (Wakeup tid w tw) = Some s'' \<and>
                   threads s'' tid = At_again blk src md5 \<and>
                   hashtable (s3b_data s'') = hashtable (s3b_data ?s')" for w tw
    by (auto simp: step_def thread_step_def ec_protect_sleep_until_def add_delay_def)
  from st wk show "\<exists>s'. step config MD5 s (Write_pass tid now ok tb) = Some s' \<and>
                  s3b_data s' = ec_protect_scrub_expired_writtens config (s3b_data s) now \<and>
                  threads s' tid =
                    Sleeping Cache_full blk src md5
                      (case tailq (s3b_data s') of
                         [] \<Rightarrow> 0
                       | first # _ \<Rightarrow> timestamp (mem (s3b_data s') first) + cache_time config)
                      tb \<and>
                  (\<forall>w tw. \<exists>s''. step config MD5 s' (Wakeup tid w tw) = Some s'' \<and>
                             threads s'' tid = At_again blk src md5 \<and>
                             hashtable (s3b_data s'') = hashtable (s3b_data s'))"
    by (intro exI [of _ ?s']) (simp split: list.splits)
qed


theorem capacity_bound_witness:
  "run scenario_conf stub_md5 system_init two_writes_and_a_call = Some third_writer_called \<and>
   length (hashtable (s3b_data third_writer_called)) \<le> cache_size scenario_conf \<and>
   (\<exists>s'. step scenario_conf stub_md5 third_writer_called (Write_pass 2 30 True 31) = Some s' \<and>
         threads s' 2 = Sleeping Cache_full 9 (Some [1, 1, 1, 1]) 9 210 31)"
proof -
  note t = capacity_bound [OF run_two_writes_and_a_call]
  have pre: "threads third_writer_called 2 = At_again 9 (Some [1, 1, 1, 1]) 9 \<and>
      ec_protect_hash_get
        (ec_protect_scrub_expired_writtens scenario_conf (s3b_data third_writer_called) 30) 9 = None \<and>
      cache_size scenario_conf \<le>
        length (hashtable (ec_protect_scrub_expired_writtens scenario_conf
                  (s3b_data third_writer_called) 30))"
    by (simp add: step_defs run_defs scenario_defs)
  from t [THEN conjunct2, rule_format, OF pre, of True 31]
  obtain s' where s': "step scenario_conf stub_md5 third_writer_called (Write_pass 2 30 True 31) = Some s'"
    "s3b_data s' = ec_protect_scrub_expired_writtens scenario_conf (s3b_data third_writer_called) 30"
    "threads s' 2 = Sleeping Cache_full 9 (Some [1, 1, 1, 1]) 9
       (case tailq (s3b_data s') of [] \<Rightarrow> 0
        | first # _ \<Rightarrow> timestamp (mem (s3b_data s') first) + cache_time scenario_conf) 31"
    by blast
  from s'(2,3) have "threads s' 2 = Sleeping Cache_full 9 (Some [1, 1, 1, 1]) 9 210 31"
    by (simp add: step_defs run_defs scenario_defs)
  with s'(1) t [THEN conjunct1] run_two_writes_and_a_call show ?thesis by blast
qed


section \<open>The structural invariant\<close>

text \<open>
  C5. In every state reached from the initial state by any schedule of atomic steps of
  any threads, under a clock that never goes back and never reads zero: the list holds
  exactly the records of the hash table that have a timestamp (the WRITTEN ones), each
  once; no block number is a key of the table twice; the list is in non-decreasing
  timestamp order from head to tail; and \<^verbatim>\<open>ec_protect_check_invariants\<close> passes.
\<close>

theorem structural_invariant:
  assumes "run config MD5 system_init evs = Some s" and "clock_ok 0 evs"
  shows "set (tailq (s3b_data s)) =
           {binfo \<in> snd ` set (hashtable (s3b_data s)). timestamp (mem (s3b_data s) binfo) \<noteq> 0} \<and>
         distinct (tailq (s3b_data s)) \<and>
         distinct (map fst (hashtable (s3b_data s))) \<and>
         sorted_wrt (\<lambda>x y. timestamp (mem (s3b_data s) x) \<le> timestamp (mem (s3b_data s) y))
           (tailq (s3b_data s)) \<and>
         ec_protect_check_invariants (s3b_data s)"
proof -
  from assms(2) have "clock_ok (clock system_init) evs" by (simp add: system_init_def)
  from run_system_inv [OF system_init_inv assms(1) this] have inv: "priv_inv (s3b_data s)"
    by (simp add: system_inv_def)
  from inv priv_inv_check_invariants [OF inv] show ?thesis
    by (simp add: priv_inv_def written_def)
qed

theorem structural_invariant_witness:
  "run scenario_conf stub_md5 system_init two_writes_and_a_call = Some third_writer_called \<and>
   clock_ok 0 two_writes_and_a_call \<and>
   hashtable (s3b_data third_writer_called) = [(7, 0), (8, 1)] \<and>
   tailq (s3b_data third_writer_called) = [0, 1] \<and>
   sorted_wrt (\<lambda>x y. timestamp (mem (s3b_data third_writer_called) x) \<le>
                       timestamp (mem (s3b_data third_writer_called) y)) [0, 1] \<and>
   ec_protect_check_invariants (s3b_data third_writer_called)"
proof -
  have t: "tailq (s3b_data third_writer_called) = [0, 1]"
    "hashtable (s3b_data third_writer_called) = [(7, 0), (8, 1)]"
    by (simp_all add: third_writer_called_def scenario_defs)
  from structural_invariant [OF run_two_writes_and_a_call two_writes_clock_ok] t
    run_two_writes_and_a_call two_writes_clock_ok
  show ?thesis by simp
qed


section \<open>What the scrubber removes\<close>

text \<open>
  C8. In a state that satisfies the state table (in particular, the list is in
  timestamp order) and whose listed timestamps are not within \<^verbatim>\<open>cache_time\<close> of the end
  of the 64-bit range, the scrubber run at time t removes from the list and from the hash
  table exactly the WRITTEN records with \<^verbatim>\<open>timestamp + cache_time <= t\<close>, frees exactly those,
  touches no record, and then signals the capacity condition when it removed one record,
  broadcasts when it removed more, and does neither when it removed none. Afterwards no
  expired WRITTEN record is left in the table, and the state table still holds.
\<close>

theorem scrub_removes_exactly_expired:
  assumes inv: "priv_inv p"
      and nw: "list_all (\<lambda>a. unat (timestamp (mem p a)) + unat (cache_time config) < 2 ^ 64) (tailq p)"
  shows "(let p' = ec_protect_scrub_expired_writtens config p now in
           tailq p' = filter (\<lambda>a. \<not> expired config now p a) (tailq p) \<and>
           hashtable p' =
             filter (\<lambda>(key, binfo). \<not> (written p binfo \<and> expired config now p binfo)) (hashtable p) \<and>
           (\<forall>a. live p' a = (live p a \<and> \<not> (a \<in> set (tailq p) \<and> expired config now p a))) \<and>
           mem p' = mem p \<and>
           space_cond p' = space_cond p @
             (case length (filter (expired config now p) (tailq p)) of
                0 \<Rightarrow> [] | Suc 0 \<Rightarrow> [Signal] | Suc (Suc _) \<Rightarrow> [Broadcast]) \<and>
           list_all (\<lambda>(key, binfo). \<not> (written p' binfo \<and> expired config now p' binfo))
             (hashtable p') \<and>
           priv_inv p')"
proof -
  let ?p' = "ec_protect_scrub_expired_writtens config p now"
  let ?R = "\<lambda>x y. timestamp (mem p x) \<le> timestamp (mem p y)"
  have mono: "expired config now p x"
    if "x \<in> set (tailq p)" "y \<in> set (tailq p)" "?R x y" "expired config now p y" for x y
    using that nw expired_mono [of p x y config now] by (auto simp: list_all_iff)
  have sc: "scrubbed config now p = filter (expired config now p) (tailq p)"
    unfolding scrubbed_def
    by (rule takeWhile_filter_sorted [OF priv_invD(5) [OF inv]]) (rule mono)
  have tq: "tailq ?p' = filter (\<lambda>a. \<not> expired config now p a) (tailq p)"
    unfolding scrub_fields(1)
    by (rule dropWhile_filter_sorted [OF priv_invD(5) [OF inv]]) (rule mono)
  have member: "a \<in> set (scrubbed config now p) \<longleftrightarrow>
                written p a \<and> expired config now p a"
    if "(k, a) \<in> set (hashtable p)" for k a
    using that priv_invD(4) [OF inv, of a] by (auto simp: sc)
  have ht: "hashtable ?p' =
      filter (\<lambda>(key, binfo). \<not> (written p binfo \<and> expired config now p binfo)) (hashtable p)"
    unfolding scrub_hashtable_inv [OF inv]
    by (rule filter_cong) (auto simp: member)
  have lv: "live ?p' a = (live p a \<and> \<not> (a \<in> set (tailq p) \<and> expired config now p a))" for a
    by (auto simp: scrub_fields(3) sc)
  have sig: "space_cond ?p' = space_cond p @
             (case length (filter (expired config now p) (tailq p)) of
                0 \<Rightarrow> [] | Suc 0 \<Rightarrow> [Signal] | Suc (Suc _) \<Rightarrow> [Broadcast])"
    by (simp add: scrub_fields(9) sc)
  have none: "list_all (\<lambda>(key, binfo). \<not> (written ?p' binfo \<and> expired config now ?p' binfo))
             (hashtable ?p')"
    by (auto simp: ht list_all_iff written_def expired_def scrub_fields(4))
  from tq ht lv sig none scrub_priv_inv [OF inv, of config now] scrub_fields(4) [of config p now]
  show ?thesis unfolding Let_def by blast
qed

theorem scrub_removes_exactly_expired_witness:
  "tailq (ec_protect_scrub_expired_writtens scenario_conf blocks_7_8_written 215) = [1] \<and>
   hashtable (ec_protect_scrub_expired_writtens scenario_conf blocks_7_8_written 215) = [(8, 1)] \<and>
   \<not> live (ec_protect_scrub_expired_writtens scenario_conf blocks_7_8_written 215) 0 \<and>
   space_cond (ec_protect_scrub_expired_writtens scenario_conf blocks_7_8_written 215) = [Signal]"
proof -
  have nw: "list_all (\<lambda>a. unat (timestamp (mem blocks_7_8_written a)) +
              unat (cache_time scenario_conf) < 2 ^ 64) (tailq blocks_7_8_written)"
    by (simp add: scenario_defs)
  from scrub_removes_exactly_expired [OF blocks_7_8_inv nw, of 215, unfolded Let_def]
  show ?thesis
    by (simp add: expired_def written_def scenario_defs)
qed


section \<open>A failed backend write\<close>

text \<open>
  C6. When a call of \<^verbatim>\<open>ec_protect_write_block\<close> has reached \<^verbatim>\<open>writeit:\<close> with its record,
  the table's record for the block in state WRITING, and the inner write returns a
  non-zero error, the call returns that error unchanged, and in the state it leaves the
  block is CLEAN: the block is removed from the hash table, the record is freed, the
  capacity condition is signalled once, and the list is left alone. A read of the block
  that follows misses the cache: it returns what the inner read returns for the caller's
  own expected digest, and no hit is counted. A write of the block that follows takes the
  CLEAN branch in each pass: it sleeps only for capacity, never for the minimum write
  delay (the statistic of that delay is the same when it returns), and with the table
  within its capacity before the failure it does not sleep at all.
\<close>

theorem write_failure_reverts:
  assumes enter: "write_block_enter config MD5 calloc_ok priv0 src0 md5_0 = (Inr (src, md5), priv)"
      and loop: "write_block_loop config priv blk src passes = Some (Inr binfo, priv1)"
      and inner: "write_block inner be blk src md5 = (r, be')"
      and err: "r \<noteq> 0"
  shows "ec_protect_hash_get priv1 blk = Some binfo \<and> timestamp (mem priv1 binfo) = 0 \<and>
         payload (mem priv1 binfo) = U_data src \<and>
     (\<exists>priv'.
        ec_protect_write_block config MD5 inner calloc_ok passes time_done (priv0, be) blk
          src0 md5_0 = Some (r, priv', be') \<and>
        ec_protect_hash_get priv' blk = None \<and> \<not> live priv' binfo \<and>
        space_cond priv' = space_cond priv1 @ [Signal] \<and>
        hashtable priv' = AList.delete blk (hashtable priv1) \<and> tailq priv' = tailq priv1 \<and>
        (\<forall>now' dest expect_md5 (inner' :: 'r s3backer_store) be2.
           \<exists>p''. ec_protect_read_block config inner' now' (priv', be2) blk dest expect_md5 =
                   Some (fst (read_block inner' be2 blk dest expect_md5), p'',
                         snd (read_block inner' be2 blk dest expect_md5)) \<and>
                 stats p'' = stats priv') \<and>
        (\<forall>now' src' ok.
           fst (write_block_again config priv' blk src' now' ok) =
             (let p1 = ec_protect_scrub_expired_writtens config priv' now' in
              if cache_size config \<le> length (hashtable p1)
              then Sleep Cache_full (case tailq p1 of [] \<Rightarrow> 0
                                     | first # _ \<Rightarrow> timestamp (mem p1 first) + cache_time config)
              else if ok then Writeit (next_addr p1) else Return ENOMEM)) \<and>
        (\<forall>MD5' (inner' :: 'r s3backer_store) ok' passes' time_done' be2 src' md5' status p2 be3.
           ec_protect_write_block config MD5' inner' ok' passes' time_done' (priv', be2) blk
             src' md5' = Some (status, p2, be3) \<longrightarrow>
           repeated_write_delay (stats p2) = repeated_write_delay (stats priv')) \<and>
        (length (hashtable priv1) \<le> cache_size config \<longrightarrow>
           (\<forall>now' src' ok.
              fst (write_block_again config priv' blk src' now' ok) =
                (if ok then Writeit (next_addr priv1) else Return ENOMEM))))"
proof -
  define priv' where "priv' = free_binfo (cond_signal (ec_protect_hash_remove priv1 blk)) binfo"
  note rec = write_block_loop_Writeit [OF loop]
  have call: "ec_protect_write_block config MD5 inner calloc_ok passes time_done (priv0, be) blk
                src0 md5_0 = Some (r, priv', be')"
    using enter loop inner err
    by (simp add: ec_protect_write_block_def write_block_finish_def priv'_def)
  have flds: "hashtable priv' = AList.delete blk (hashtable priv1)" "tailq priv' = tailq priv1"
    "space_cond priv' = space_cond priv1 @ [Signal]" "\<not> live priv' binfo"
    "next_addr priv' = next_addr priv1"
    by (simp_all add: priv'_def free_binfo_def cond_signal_def ec_protect_hash_remove_def)
  have hg: "ec_protect_hash_get priv' blk = None"
    by (simp add: ec_protect_hash_get_def flds delete_conv')
  have rd: "\<exists>p''. ec_protect_read_block config inner' now' (priv', be2) blk dest expect_md5 =
                   Some (fst (read_block inner' be2 blk dest expect_md5), p'',
                         snd (read_block inner' be2 blk dest expect_md5)) \<and>
                 stats p'' = stats priv'"
    for now' dest expect_md5 and inner' :: "'r s3backer_store" and be2
  proof -
    from hg have "ec_protect_hash_get (ec_protect_scrub_expired_writtens config priv' now') blk = None"
      by (simp add: hash_get_scrub)
    then show ?thesis
      by (simp add: ec_protect_read_block_def read_block_locked_miss scrub_fields
          split: prod.splits)
  qed
  note wr = write_block_again_clean [OF hg, of config]
  have nostall: "repeated_write_delay (stats p2) = repeated_write_delay (stats priv')"
    if "ec_protect_write_block config MD5' inner' ok' passes' time_done' (priv', be2) blk
          src' md5' = Some (status, p2, be3)"
    for MD5' and inner' :: "'r s3backer_store" and ok' passes' time_done' be2 src' md5' status p2 be3
    using write_block_absent [OF hg that] .
  have room: "fst (write_block_again config priv' blk src' now' ok) =
                (if ok then Writeit (next_addr priv1) else Return ENOMEM)"
    if h: "length (hashtable priv1) \<le> cache_size config"
    for now' src' ok
  proof -
    from rec have "ec_protect_hash_get priv1 blk \<noteq> None" by simp
    with h have "length (hashtable priv') < cache_size config"
      using length_delete_less [of "hashtable priv1" blk]
      by (simp add: flds ec_protect_hash_get_def)
    moreover have "length (hashtable (ec_protect_scrub_expired_writtens config priv' now')) \<le>
                   length (hashtable priv')"
      by (simp add: scrub_fields)
    ultimately have "\<not> cache_size config \<le>
        length (hashtable (ec_protect_scrub_expired_writtens config priv' now'))"
      by linarith
    then show ?thesis
      by (simp add: wr Let_def scrub_fields(7) flds)
  qed
  have "\<exists>priv'.
        ec_protect_write_block config MD5 inner calloc_ok passes time_done (priv0, be) blk
          src0 md5_0 = Some (r, priv', be') \<and>
        ec_protect_hash_get priv' blk = None \<and> \<not> live priv' binfo \<and>
        space_cond priv' = space_cond priv1 @ [Signal] \<and>
        hashtable priv' = AList.delete blk (hashtable priv1) \<and> tailq priv' = tailq priv1 \<and>
        (\<forall>now' dest expect_md5 (inner' :: 'r s3backer_store) be2.
           \<exists>p''. ec_protect_read_block config inner' now' (priv', be2) blk dest expect_md5 =
                   Some (fst (read_block inner' be2 blk dest expect_md5), p'',
                         snd (read_block inner' be2 blk dest expect_md5)) \<and>
                 stats p'' = stats priv') \<and>
        (\<forall>now' src' ok.
           fst (write_block_again config priv' blk src' now' ok) =
             (let p1 = ec_protect_scrub_expired_writtens config priv' now' in
              if cache_size config \<le> length (hashtable p1)
              then Sleep Cache_full (case tailq p1 of [] \<Rightarrow> 0
                                     | first # _ \<Rightarrow> timestamp (mem p1 first) + cache_time config)
              else if ok then Writeit (next_addr p1) else Return ENOMEM)) \<and>
        (\<forall>MD5' (inner' :: 'r s3backer_store) ok' passes' time_done' be2 src' md5' status p2 be3.
           ec_protect_write_block config MD5' inner' ok' passes' time_done' (priv', be2) blk
             src' md5' = Some (status, p2, be3) \<longrightarrow>
           repeated_write_delay (stats p2) = repeated_write_delay (stats priv')) \<and>
        (length (hashtable priv1) \<le> cache_size config \<longrightarrow>
           (\<forall>now' src' ok.
              fst (write_block_again config priv' blk src' now' ok) =
                (if ok then Writeit (next_addr priv1) else Return ENOMEM)))"
  proof (rule exI [of _ priv'], intro conjI allI impI)
    show "ec_protect_write_block config MD5 inner calloc_ok passes time_done (priv0, be) blk
            src0 md5_0 = Some (r, priv', be')" by (rule call)
    show "ec_protect_hash_get priv' blk = None" by (rule hg)
    show "\<not> live priv' binfo" by (rule flds)
    show "space_cond priv' = space_cond priv1 @ [Signal]" by (rule flds)
    show "hashtable priv' = AList.delete blk (hashtable priv1)" by (rule flds)
    show "tailq priv' = tailq priv1" by (rule flds)
  next
    fix now' dest expect_md5 and inner' :: "'r s3backer_store" and be2
    show "\<exists>p''. ec_protect_read_block config inner' now' (priv', be2) blk dest expect_md5 =
                 Some (fst (read_block inner' be2 blk dest expect_md5), p'',
                       snd (read_block inner' be2 blk dest expect_md5)) \<and>
               stats p'' = stats priv'" by (rule rd)
  next
    fix now' src' ok
    show "fst (write_block_again config priv' blk src' now' ok) =
             (let p1 = ec_protect_scrub_expired_writtens config priv' now' in
              if cache_size config \<le> length (hashtable p1)
              then Sleep Cache_full (case tailq p1 of [] \<Rightarrow> 0
                                     | first # _ \<Rightarrow> timestamp (mem p1 first) + cache_time config)
              else if ok then Writeit (next_addr p1) else Return ENOMEM)" by (rule wr)
  next
    fix MD5' and inner' :: "'r s3backer_store" and ok' passes' time_done' be2 src' md5' status p2 be3
    assume "ec_protect_write_block config MD5' inner' ok' passes' time_done' (priv', be2) blk
              src' md5' = Some (status, p2, be3)"
    then show "repeated_write_delay (stats p2) = repeated_write_delay (stats priv')"
      by (rule nostall)
  next
    fix now' src' ok
    assume "length (hashtable priv1) \<le> cache_size config"
    then show "fst (write_block_again config priv' blk src' now' ok) =
                (if ok then Writeit (next_addr priv1) else Return ENOMEM)" by (rule room)
  qed
  with rec show ?thesis by (simp only: simp_thms)
qed

theorem write_failure_reverts_witness:
  "\<exists>priv'.
     ec_protect_write_block scenario_conf stub_md5 failing_store True [pass_at 5] 10
       (ec_protect_create, 0) 5 (Some [1, 2, 3, 4]) None = Some (EIO, priv', 0) \<and>
     ec_protect_hash_get priv' 5 = None \<and> \<not> live priv' 0 \<and> space_cond priv' = [Signal] \<and>
     (\<exists>p''. ec_protect_read_block scenario_conf counting_store 30 (priv', 0) 5 [9, 9, 9, 9] None =
              Some ((0, [9, 9, 9, 9]), p'', Suc 0)) \<and>
     fst (write_block_again scenario_conf priv' 5 (Some [1, 2, 3, 4]) 30 True) = Writeit 1"
proof -
  have inner: "write_block failing_store (0 :: nat) 5 (Some [1, 2, 3, 4]) 9 = (EIO, 0)"
    by (simp add: failing_store_def)
  have err: "EIO \<noteq> 0" by (simp add: EIO_def)
  from write_failure_reverts [where ?'r = nat, OF scenario_enter_5 scenario_loop_5 inner err, of 10]
  obtain priv' where
    call: "ec_protect_write_block scenario_conf stub_md5 failing_store True [pass_at 5] 10
             (ec_protect_create, 0) 5 (Some [1, 2, 3, 4]) None = Some (EIO, priv', 0)" and
    clean: "ec_protect_hash_get priv' 5 = None" "\<not> live priv' 0"
      "space_cond priv' = space_cond block5_writing @ [Signal]" and
    rd: "\<forall>now' dest expect_md5 (inner' :: nat s3backer_store) be2.
           \<exists>p''. ec_protect_read_block scenario_conf inner' now' (priv', be2) 5 dest expect_md5 =
                   Some (fst (read_block inner' be2 5 dest expect_md5), p'',
                         snd (read_block inner' be2 5 dest expect_md5)) \<and>
                 stats p'' = stats priv'" and
    room: "length (hashtable block5_writing) \<le> cache_size scenario_conf \<longrightarrow>
           (\<forall>now' src' ok.
              fst (write_block_again scenario_conf priv' 5 src' now' ok) =
                (if ok then Writeit (next_addr block5_writing) else Return ENOMEM))"
    by (elim conjE exE) (rule that; assumption)
  from rd [rule_format, of counting_store 30 0 "[9, 9, 9, 9]" None]
  have r: "\<exists>p''. ec_protect_read_block scenario_conf counting_store 30 (priv', 0) 5 [9, 9, 9, 9]
                   None = Some ((0, [9, 9, 9, 9]), p'', Suc 0)"
    by (auto simp: counting_store_def)
  from room have w: "fst (write_block_again scenario_conf priv' 5 (Some [1, 2, 3, 4]) 30 True) =
                     Writeit 1"
    by (simp add: scenario_defs)
  from clean(3) have s: "space_cond priv' = [Signal]" by (simp add: scenario_defs)
  from call clean(1,2) s r w show ?thesis by blast
qed

section \<open>Reads of a WRITTEN block\<close>

text \<open>
  C7. A read that finds its block WRITTEN (a record with a timestamp is still in the hash
  table after the scrub) with a digest other than the zero digest calls the inner read
  with the cached digest as the expected value, and returns what the inner read returns,
  status and buffer. When the caller's expected digest differs from the cached one, the
  message is logged and the cached digest is forwarded all the same.
\<close>

theorem read_block_written_handoff:
  assumes "ec_protect_hash_get (ec_protect_scrub_expired_writtens config priv now) blk = Some binfo"
      and "timestamp (mem priv binfo) \<noteq> 0"
      and "payload (mem priv binfo) = U_md5 md5"
      and "md5 \<noteq> zero_md5"
  shows "\<exists>priv'. ec_protect_read_block config inner now (priv, be) blk dest expect_md5 =
            Some (fst (read_block inner be blk dest (Some md5)), priv',
                  snd (read_block inner be blk dest (Some md5))) \<and>
          logged priv' = logged priv @
            (if expect_md5 \<noteq> None \<and> expect_md5 \<noteq> Some md5 then [impossible_md5] else [])"
  using assms
  by (auto simp: ec_protect_read_block_def read_block_locked_written log_err_def scrub_fields
      split: prod.splits)

theorem read_block_written_handoff_witness:
  "\<exists>priv'. ec_protect_read_block scenario_conf counting_store 50 (block7_written 5, 0) 7
              [9, 9, 9, 9] (Some 6) = Some ((0, [9, 9, 9, 9]), priv', Suc 0) \<and>
           logged priv' = [impossible_md5]"
  using read_block_written_handoff [where config = scenario_conf and priv = "block7_written 5"
      and now = 50 and blk = 7 and binfo = 0 and ?md5.0 = 5 and inner = counting_store and be = 0
      and dest = "[9, 9, 9, 9]" and ?expect_md5.0 = "Some 6"]
  by (simp add: run_defs scenario_defs)


section \<open>Digests supplied by the caller\<close>

text \<open>
  C10, as amended. A successful write of a non-zero block with a digest supplied by the
  caller does not depend on the MD5 function (none is computed) and leaves the block's
  record with the caller's digest, unchecked, whatever that digest is. With the
  completion time of the write other than zero, every following read that still finds
  the record forwards the digest to the inner read as the expected value and returns what
  the inner read returns, when the digest is not the zero digest; when it is the zero
  digest, the read fills the destination with zeros and returns 0, and the inner store is
  not called.
\<close>

theorem caller_md5_stored_unverified:
  assumes zb: "zero_block_ok config priv"
      and nonzero: "take (block_size config) src \<noteq> replicate (block_size config) 0"
      and wr: "ec_protect_write_block config MD5 inner calloc_ok passes time_done (priv, be) blk
                 (Some src) (Some md5) = Some (0, priv', be')"
  shows "ec_protect_write_block config MD5' inner calloc_ok passes time_done (priv, be) blk
           (Some src) (Some md5) = Some (0, priv', be') \<and>
         (\<exists>binfo. ec_protect_hash_get priv' blk = Some binfo \<and>
                  timestamp (mem priv' binfo) = time_done \<and>
                  payload (mem priv' binfo) = U_md5 md5) \<and>
         (time_done \<noteq> 0 \<longrightarrow>
            (\<forall>now dest expect_md5 (inner' :: 'r s3backer_store) be2.
               ec_protect_hash_get (ec_protect_scrub_expired_writtens config priv' now) blk \<noteq> None \<longrightarrow>
               (\<exists>priv''. ec_protect_read_block config inner' now (priv', be2) blk dest expect_md5 =
                  (if md5 = zero_md5
                   then Some ((0, memset_zero dest (block_size config)), priv'', be2)
                   else Some (fst (read_block inner' be2 blk dest (Some md5)), priv'',
                              snd (read_block inner' be2 blk dest (Some md5)))))))"
proof -
  have en: "write_block_enter config MD5' calloc_ok priv (Some src) (Some md5) =
            write_block_enter config MD5 calloc_ok priv (Some src) (Some md5)"
    by (simp add: write_block_enter_def write_block_source_given split: option.splits)
  have same: "ec_protect_write_block config MD5' inner calloc_ok passes time_done (priv, be) blk
           (Some src) (Some md5) = Some (0, priv', be')"
    using wr by (simp add: ec_protect_write_block_def en)
  from write_block_success [OF wr] obtain s m p0 a where
    e: "write_block_enter config MD5 calloc_ok priv (Some src) (Some md5) = (Inr (s, m), p0)" and
    rec: "ec_protect_hash_get priv' blk = Some a" "timestamp (mem priv' a) = time_done"
         "payload (mem priv' a) = U_md5 m"
    by blast
  from write_block_enter_Inr [OF zb e] write_block_source_nonzero [OF nonzero]
  have m: "m = md5" by simp
  have reads: "\<exists>priv''. ec_protect_read_block config inner' now (priv', be2) blk dest expect_md5 =
                  (if md5 = zero_md5
                   then Some ((0, memset_zero dest (block_size config)), priv'', be2)
                   else Some (fst (read_block inner' be2 blk dest (Some md5)), priv'',
                              snd (read_block inner' be2 blk dest (Some md5))))"
    if td: "time_done \<noteq> 0"
      and hit: "ec_protect_hash_get (ec_protect_scrub_expired_writtens config priv' now) blk \<noteq> None"
    for now dest expect_md5 and inner' :: "'r s3backer_store" and be2
  proof -
    from hit hash_get_scrub_cases [of config priv' now blk] rec
    have h: "ec_protect_hash_get (ec_protect_scrub_expired_writtens config priv' now) blk = Some a"
      by auto
    from rec td have ts: "timestamp (mem priv' a) \<noteq> 0" by simp
    from rec m have pl: "payload (mem priv' a) = U_md5 md5" by simp
    show ?thesis
    proof (cases "md5 = zero_md5")
      case True
      with read_block_locked_written [OF h ts pl, of dest expect_md5] show ?thesis
        by (simp add: ec_protect_read_block_def)
    next
      case False
      from read_block_written_inner [OF h ts pl False, of inner' be2 dest expect_md5] False
      show ?thesis by simp
    qed
  qed
  from same rec m reads show ?thesis by blast
qed

lemma scenario_write_0:
  "ec_protect_write_block scenario_conf stub_md5 counting_store True [pass_at 5] 10
     (ec_protect_create, 0) 7 (Some [1, 2, 3, 4]) (Some 0) = Some (0, block7_written 0, 0)"
  by (simp add: run_defs scenario_defs)

theorem caller_md5_stored_unverified_witness:
  "ec_protect_write_block scenario_conf stub_md5 counting_store True [pass_at 5] 10
     (ec_protect_create, 0) 7 (Some [1, 2, 3, 4]) (Some 5) = Some (0, block7_written 5, 0) \<and>
   (\<exists>priv''. ec_protect_read_block scenario_conf counting_store 50 (block7_written 5, 0) 7
                [9, 9, 9, 9] None = Some ((0, [9, 9, 9, 9]), priv'', Suc 0)) \<and>
   (\<exists>priv''. ec_protect_read_block scenario_conf counting_store 50 (block7_written 0, 0) 7
                [9, 9, 9, 9] None = Some ((0, [0, 0, 0, 0]), priv'', 0))"
proof -
  have zb: "zero_block_ok scenario_conf ec_protect_create"
    by (simp add: zero_block_ok_def ec_protect_create_def)
  have nonzero: "take (block_size scenario_conf) [1, 2, 3, 4] \<noteq>
                 replicate (block_size scenario_conf) (0 :: byte)"
    by (simp add: scenario_defs)
  have td: "(10 :: uint64_t) \<noteq> 0" by simp
  have cached: "ec_protect_hash_get
      (ec_protect_scrub_expired_writtens scenario_conf (block7_written m) 50) 7 \<noteq> None" for m
    by (simp add: run_defs scenario_defs)
  note t5 = caller_md5_stored_unverified [where ?'r = nat, OF zb nonzero scenario_write_5, of stub_md5]
  note t0 = caller_md5_stored_unverified [where ?'r = nat, OF zb nonzero scenario_write_0, of stub_md5]
  from t5 [THEN conjunct2, THEN conjunct2, rule_format, OF td cached,
      of counting_store 0 "[9, 9, 9, 9]" None]
  have r5: "\<exists>priv''. ec_protect_read_block scenario_conf counting_store 50 (block7_written 5, 0) 7
                [9, 9, 9, 9] None = Some ((0, [9, 9, 9, 9]), priv'', Suc 0)"
    by (simp add: scenario_defs zero_md5_def)
  from t0 [THEN conjunct2, THEN conjunct2, rule_format, OF td cached,
      of counting_store 0 "[9, 9, 9, 9]" None]
  have r0: "\<exists>priv''. ec_protect_read_block scenario_conf counting_store 50 (block7_written 0, 0) 7
                [9, 9, 9, 9] None = Some ((0, [0, 0, 0, 0]), priv'', 0)"
    by (simp add: scenario_defs zero_md5_def memset_zero_def)
  from scenario_write_5 r5 r0 show ?thesis by blast
qed

text \<open>
  C10 as stated fails when the caller's digest is the zero digest: a read 40 ms after
  the write of [1, 2, 3, 4] returns zeros at once, and the inner store has seen no read.
\<close>

theorem caller_zero_md5_not_forwarded:
  "write_then_read scenario_conf stub_md5 counting_store True [pass_at 5] 10 50
     (ec_protect_create, 0) 7 (Some [1, 2, 3, 4]) (Some 0) [9, 9, 9, 9] None =
   Some (0, (0, [0, 0, 0, 0]), 0)"
  by (simp add: run_defs scenario_defs)


section \<open>The timed wait's return value\<close>

text \<open>
  C9, as amended. Called with a condition or a non-zero wake time,
  \<^verbatim>\<open>ec_protect_sleep_until\<close> returns. When the wait ends by a signal or a spurious wakeup,
  or has no deadline, the result is the clock read after the wait minus the clock read on
  entry: the time slept. When the timed wait ends by its deadline, and the deadline is not
  before the clock read on entry, the clock is not read again: the result is
  \<^verbatim>\<open>wake_time_millis - time_before\<close>, the time the sleep was scheduled to take, which is
  at most the time slept when the wait does not end before the deadline.
\<close>

theorem sleep_until_result:
  assumes "has_cond \<or> wake_time \<noteq> 0"
  shows "\<exists>delay. ec_protect_sleep_until has_cond wake_time time_before w time_wakeup = Some delay \<and>
           (w = Woken \<or> wake_time = 0 \<longrightarrow> delay = time_wakeup - time_before) \<and>
           (w = ETIMEDOUT \<and> wake_time \<noteq> 0 \<and> time_before \<le> wake_time \<longrightarrow>
              delay = wake_time - time_before \<and>
              (wake_time \<le> time_wakeup \<longrightarrow> delay \<le> time_wakeup - time_before))"
  using assms
  by (cases w) (auto simp: ec_protect_sleep_until_def word_le_nat_alt unat_sub)

theorem sleep_until_result_witness:
  "ec_protect_sleep_until True 150 100 ETIMEDOUT 170 = Some 50 \<and>
   ec_protect_sleep_until True 150 100 Woken 120 = Some 20 \<and>
   ec_protect_sleep_until True 0 100 Woken 130 = Some 30"
  using sleep_until_result [of True 150 100 ETIMEDOUT 170]
    sleep_until_result [of True 150 100 Woken 120]
    sleep_until_result [of True 0 100 Woken 130]
  by simp

text \<open>
  C9 as stated fails: a wait entered at clock 100 with wake time 150 that times out and
  holds the mutex again at clock 170 has slept 70 milliseconds, and the function
  returns 50.
\<close>

theorem sleep_until_not_elapsed:
  "ec_protect_sleep_until True 150 100 ETIMEDOUT 170 \<noteq> Some (170 - 100)"
  by (simp add: ec_protect_sleep_until_def)

end
